theory Spec2Isabelle
  imports Main "HOL-Library.Multiset"
begin

section \<open>The month calendar of \<open>calendarapp/views.py\<close>\<close>

text \<open>
  The view module builds a Sunday-first month grid and the previous/next month links on
  top of Python's \<open>datetime\<close> and \<open>calendar\<close> standard modules. Both layers are embedded
  here as executable HOL functions: the library functions the view calls follow the
  Python sources of the standard library (\<open>Lib/datetime.py\<close>, \<open>Lib/calendar.py\<close>, and
  the C constructor of \<open>date\<close> for the conversion of its arguments), the view functions
  follow \<open>calendarapp/views.py\<close>. Python integers are \<open>int\<close>; Python's
  \<open>%\<close> and \<open>//\<close> round towards minus infinity, as \<open>mod\<close> and \<open>div\<close> on \<open>int\<close> do
  for the positive divisors used here. Every \<open>raise\<close> is a value \<open>Inl e\<close> of the result
  type, and a function that may raise returns \<open>py_error + 'a\<close>.
\<close>

datatype py_error = ValueError | TypeError | OverflowError | IllegalMonthError

text \<open>\<open>calendar.IllegalMonthError\<close> is a subclass of \<open>ValueError\<close>.\<close>

definition is_ValueError :: "py_error \<Rightarrow> bool" where
  "is_ValueError e = (e = ValueError \<or> e = IllegalMonthError)"

subsection \<open>The standard module \<open>datetime\<close>\<close>

text \<open>A \<open>datetime.date\<close> object: the attributes \<open>year\<close>, \<open>month\<close> and \<open>day\<close>.\<close>

record date =
  d_year :: int
  d_month :: int
  d_day :: int

definition MINYEAR :: int where
  "MINYEAR = 1"

definition MAXYEAR :: int where
  "MAXYEAR = 9999"

definition MAXORDINAL :: int where
  "MAXORDINAL = 3652059"

text \<open>Index 0 is a placeholder, as in the module.\<close>

definition DAYS_IN_MONTH :: "int list" where
  "DAYS_IN_MONTH = [-1, 31, 28, 31, 30, 31, 30, 31, 31, 30, 31, 30, 31]"

definition DAYS_BEFORE_MONTH :: "int list" where
  "DAYS_BEFORE_MONTH = [-1, 0, 31, 59, 90, 120, 151, 181, 212, 243, 273, 304, 334]"

definition is_leap :: "int \<Rightarrow> bool" where
  "is_leap y = (y mod 4 = 0 \<and> (y mod 100 \<noteq> 0 \<or> y mod 400 = 0))"

definition days_before_year :: "int \<Rightarrow> int" where
  "days_before_year yr = (let y = yr - 1 in y * 365 + y div 4 - y div 100 + y div 400)"

text \<open>
  The two table look-ups below are only reached with \<open>1 \<le> m \<le> 12\<close> (the module asserts
  it): the constructor checks the month first, and \<open>ord2ymd\<close> computes a month in range.
\<close>

definition days_in_month :: "int \<Rightarrow> int \<Rightarrow> int" where
  "days_in_month y m = (if m = 2 \<and> is_leap y then 29 else DAYS_IN_MONTH ! nat m)"

definition days_before_month :: "int \<Rightarrow> int \<Rightarrow> int" where
  "days_before_month y m = DAYS_BEFORE_MONTH ! nat m + (if m > 2 \<and> is_leap y then 1 else 0)"

definition ymd2ord :: "int \<Rightarrow> int \<Rightarrow> int \<Rightarrow> int" where
  "ymd2ord y m d = days_before_year y + days_before_month y m + d"

definition DI400Y :: int where
  "DI400Y = days_before_year 401"

definition DI100Y :: int where
  "DI100Y = days_before_year 101"

definition DI4Y :: int where
  "DI4Y = days_before_year 5"

text \<open>\<open>_ord2ymd\<close>: \<open>divmod\<close> is the pair of \<open>div\<close> and \<open>mod\<close>, \<open>>> 5\<close> is \<open>div 32\<close>.\<close>

definition ord2ymd :: "int \<Rightarrow> int \<times> int \<times> int" where
  "ord2ymd n0 =
     (let n = n0 - 1;
          n400 = n div DI400Y; n = n mod DI400Y;
          yr = n400 * 400 + 1;
          n100 = n div DI100Y; n = n mod DI100Y;
          n4 = n div DI4Y; n = n mod DI4Y;
          n1 = n div 365; n = n mod 365;
          yr = yr + (n100 * 100 + n4 * 4 + n1)
      in if n1 = 4 \<or> n100 = 4 then (yr - 1, 12, 31)
         else
           let leapyear = (n1 = 3 \<and> (n4 \<noteq> 24 \<or> n100 = 3));
               mo = (n + 50) div 32;
               preceding = DAYS_BEFORE_MONTH ! nat mo + (if mo > 2 \<and> leapyear then 1 else 0)
           in if preceding > n
              then let mo = mo - 1;
                       preceding = preceding
                         - (DAYS_IN_MONTH ! nat mo + (if mo = 2 \<and> leapyear then 1 else 0))
                   in (yr, mo, n - preceding + 1)
              else (yr, mo, n - preceding + 1))"

text \<open>
  \<open>date(year, month, day)\<close>, the constructor. \<open>import datetime\<close> loads the C
  implementation, whose constructor first converts the three arguments to C \<open>int\<close>
  (32 bits) and raises OverflowError for a number that does not fit; the range checks of
  \<open>_check_date_fields\<close> follow and raise ValueError.
\<close>

definition INT_MIN :: int where
  "INT_MIN = - 2147483648"

definition INT_MAX :: int where
  "INT_MAX = 2147483647"

definition fits_c_int :: "int \<Rightarrow> bool" where
  "fits_c_int i = (INT_MIN \<le> i \<and> i \<le> INT_MAX)"

definition date_new :: "int \<Rightarrow> int \<Rightarrow> int \<Rightarrow> py_error + date" where
  "date_new y m d =
     (if \<not> (fits_c_int y \<and> fits_c_int m \<and> fits_c_int d) then Inl OverflowError
      else if \<not> (MINYEAR \<le> y \<and> y \<le> MAXYEAR) then Inl ValueError
      else if \<not> (1 \<le> m \<and> m \<le> 12) then Inl ValueError
      else if \<not> (1 \<le> d \<and> d \<le> days_in_month y m) then Inl ValueError
      else Inr \<lparr>d_year = y, d_month = m, d_day = d\<rparr>)"

definition toordinal :: "date \<Rightarrow> int" where
  "toordinal dt = ymd2ord (d_year dt) (d_month dt) (d_day dt)"

definition fromordinal :: "int \<Rightarrow> py_error + date" where
  "fromordinal n = (case ord2ymd n of (y, m, d) \<Rightarrow> date_new y m d)"

text \<open>\<open>dt + timedelta(days=k)\<close> and \<open>dt - timedelta(days=k)\<close>.\<close>

definition date_add :: "date \<Rightarrow> int \<Rightarrow> py_error + date" where
  "date_add dt k =
     (let n = toordinal dt + k
      in if 0 < n \<and> n \<le> MAXORDINAL then fromordinal n else Inl OverflowError)"

definition date_sub :: "date \<Rightarrow> int \<Rightarrow> py_error + date" where
  "date_sub dt k = date_add dt (- k)"

text \<open>\<open>dt.replace(day=d)\<close>.\<close>

definition replace_day :: "date \<Rightarrow> int \<Rightarrow> py_error + date" where
  "replace_day dt d = date_new (d_year dt) (d_month dt) d"

text \<open>\<open>dt.weekday()\<close>: Monday is 0, Sunday is 6.\<close>

definition date_weekday :: "date \<Rightarrow> int" where
  "date_weekday dt = (toordinal dt + 6) mod 7"

text \<open>
  \<open>dt.strftime("%B")\<close>, the full month name, in the C locale (the name depends on the
  process locale; nothing below depends on its value).
\<close>

definition MONTH_NAMES :: "string list" where
  "MONTH_NAMES = ['''', ''January'', ''February'', ''March'', ''April'', ''May'', ''June'',
     ''July'', ''August'', ''September'', ''October'', ''November'', ''December'']"

definition strftime_B :: "date \<Rightarrow> string" where
  "strftime_B dt = MONTH_NAMES ! nat (d_month dt)"

subsection \<open>The standard module \<open>calendar\<close>\<close>

definition SUNDAY :: int where
  "SUNDAY = 6"

definition February :: int where
  "February = 2"

definition mdays :: "int list" where
  "mdays = [0, 31, 28, 31, 30, 31, 30, 31, 31, 30, 31, 30, 31]"

definition isleap :: "int \<Rightarrow> bool" where
  "isleap y = (y mod 4 = 0 \<and> (y mod 100 \<noteq> 0 \<or> y mod 400 = 0))"

text \<open>\<open>calendar.weekday\<close> maps a year outside the \<open>date\<close> range into the years 2000..2399.\<close>

definition weekday :: "int \<Rightarrow> int \<Rightarrow> int \<Rightarrow> py_error + int" where
  "weekday y m d =
     (let y' = (if \<not> (MINYEAR \<le> y \<and> y \<le> MAXYEAR) then 2000 + y mod 400 else y)
      in case date_new y' m d of Inl e \<Rightarrow> Inl e | Inr dt \<Rightarrow> Inr (date_weekday dt))"

definition monthrange :: "int \<Rightarrow> int \<Rightarrow> py_error + (int \<times> int)" where
  "monthrange y m =
     (if \<not> (1 \<le> m \<and> m \<le> 12) then Inl IllegalMonthError
      else case weekday y m 1 of
             Inl e \<Rightarrow> Inl e
           | Inr day1 \<Rightarrow>
               Inr (day1, mdays ! nat m + (if m = February \<and> isleap y then 1 else 0)))"

text \<open>
  \<open>Calendar(firstweekday).itermonthdays(year, month)\<close>, as the list it yields:
  \<open>repeat(0, k)\<close> is \<open>replicate\<close>, \<open>range(1, ndays + 1)\<close> is \<open>[1..ndays]\<close>.
\<close>

definition itermonthdays :: "int \<Rightarrow> int \<Rightarrow> int \<Rightarrow> py_error + int list" where
  "itermonthdays firstweekday y m =
     (case monthrange y m of
        Inl e \<Rightarrow> Inl e
      | Inr (day1, ndays) \<Rightarrow>
          (let days_before = (day1 - firstweekday) mod 7;
               days_after = (firstweekday - day1 - ndays) mod 7
           in Inr (replicate (nat days_before) 0 @ [1..ndays] @ replicate (nat days_after) 0)))"

text \<open>\<open>range(0, n, step)\<close> for a positive step, and the slice \<open>xs[i:i+7]\<close>.\<close>

definition py_range_step :: "nat \<Rightarrow> nat \<Rightarrow> nat list" where
  "py_range_step n step = map (\<lambda>k. k * step) [0..<(n + step - 1) div step]"

definition monthdayscalendar :: "int \<Rightarrow> int \<Rightarrow> int \<Rightarrow> py_error + int list list" where
  "monthdayscalendar firstweekday y m =
     (case itermonthdays firstweekday y m of
        Inl e \<Rightarrow> Inl e
      | Inr days \<Rightarrow> Inr (map (\<lambda>i. take 7 (drop i days)) (py_range_step (length days) 7)))"

subsection \<open>The built-in \<open>int\<close> and the query dictionary\<close>

text \<open>
  \<open>int(x)\<close> is applied to what \<open>request.GET.get\<close> returns: a string of the query, or the
  integer default. A string is a list of characters read as code points below 256 (code
  points above are outside this model). \<open>int\<close> of a string strips white space, reads an
  optional sign and then decimal digits, with single underscores allowed between digits,
  and refuses more than \<open>sys.int_max_str_digits\<close> digits (4300 unless reconfigured).
\<close>

datatype pyval = PyStr string | PyInt int

definition is_space :: "char \<Rightarrow> bool" where
  "is_space c = ((of_char c :: nat) \<in> {9, 10, 11, 12, 13, 32, 133, 160})"

definition digit_value :: "char \<Rightarrow> int option" where
  "digit_value c =
     (let k = (of_char c :: nat) in if 48 \<le> k \<and> k \<le> 57 then Some (int k - 48) else None)"

fun digits_value :: "int \<Rightarrow> bool \<Rightarrow> string \<Rightarrow> int option" where
  "digits_value acc prev_underscore [] = (if prev_underscore then None else Some acc)"
| "digits_value acc prev_underscore (c # cs) =
     (if c = CHR ''_''
      then (if prev_underscore then None else digits_value acc True cs)
      else case digit_value c of
             None \<Rightarrow> None
           | Some v \<Rightarrow> digits_value (acc * 10 + v) False cs)"

definition int_max_str_digits :: nat where
  "int_max_str_digits = 4300"

definition int_of_str :: "string \<Rightarrow> py_error + int" where
  "int_of_str s =
     (let t = rev (dropWhile is_space (rev (dropWhile is_space s)));
          (sign, body) =
            (case t of
               [] \<Rightarrow> (1, t)
             | c # cs \<Rightarrow> if c = CHR ''-'' then (- 1, cs) else if c = CHR ''+'' then (1, cs) else (1, t))
      in case body of
           [] \<Rightarrow> Inl ValueError
         | c # cs \<Rightarrow>
             if c = CHR ''_'' then Inl ValueError
             else case digits_value 0 False body of
                    None \<Rightarrow> Inl ValueError
                  | Some v \<Rightarrow>
                      if length (filter (\<lambda>c. c \<noteq> CHR ''_'') body) > int_max_str_digits
                      then Inl ValueError
                      else Inr (sign * v))"

definition py_int :: "pyval \<Rightarrow> py_error + int" where
  "py_int x = (case x of PyInt i \<Rightarrow> Inr i | PyStr s \<Rightarrow> int_of_str s)"

text \<open>
  \<open>request.GET\<close> is a dictionary from parameter names to strings; \<open>get(key, default)\<close>
  returns the default for a key that is absent.
\<close>

record HttpRequest =
  GET :: "string \<rightharpoonup> string"

definition QueryDict_get :: "(string \<rightharpoonup> string) \<Rightarrow> string \<Rightarrow> pyval \<Rightarrow> pyval" where
  "QueryDict_get q key dflt = (case q key of None \<Rightarrow> dflt | Some s \<Rightarrow> PyStr s)"

subsection \<open>The view module\<close>

text \<open>Sequencing of calls that may raise: the first error ends the computation.\<close>

definition and_then :: "py_error + 'a \<Rightarrow> ('a \<Rightarrow> py_error + 'b) \<Rightarrow> py_error + 'b" where
  "and_then r f = (case r of Inl e \<Rightarrow> Inl e | Inr v \<Rightarrow> f v)"

record DayCell =
  day :: int
  date :: "date option"

text \<open>
  \<open>_parse_year_month\<close>, with \<open>dt.date.today()\<close> as the parameter \<open>today\<close>:
  \<^verbatim>\<open>
    try:
        year = int(request.GET.get("year", today.year))
        month = int(request.GET.get("month", today.month))
        if month < 1 or month > 12:
            raise ValueError("month out of range")
    except (TypeError, ValueError):
        year, month = today.year, today.month
    return year, month
  \<close>
  The \<open>try\<close> body is evaluated first; \<open>except (TypeError, ValueError)\<close> replaces these
  errors by today's year and month, any other error would propagate.
\<close>

definition parse_year_month :: "HttpRequest \<Rightarrow> date \<Rightarrow> py_error + (int \<times> int)" where
  "parse_year_month request today =
     (let body =
            and_then (py_int (QueryDict_get (GET request) ''year'' (PyInt (d_year today))))
              (\<lambda>year.
                 and_then (py_int (QueryDict_get (GET request) ''month'' (PyInt (d_month today))))
                   (\<lambda>month.
                      if month < 1 \<or> month > 12 then Inl ValueError else Inr (year, month)))
      in case body of
           Inl e \<Rightarrow>
             if e = TypeError \<or> is_ValueError e then Inr (d_year today, d_month today)
             else Inl e
         | Inr ym \<Rightarrow> Inr ym)"

text \<open>
  \<open>_build_month_grid\<close>: the inner loop over a week (\<open>build_row\<close>), the outer loop over
  the weeks (\<open>build_weeks\<close>), and the function itself.
  \<^verbatim>\<open>
    cal = calendar.Calendar(firstweekday=calendar.SUNDAY)
    weeks = []
    for week in cal.monthdayscalendar(year, month):
        row = []
        for day_num in week:
            if day_num == 0:
                row.append(DayCell(day=0, date=None))
            else:
                row.append(DayCell(day=day_num, date=dt.date(year, month, day_num)))
        weeks.append(row)
    return weeks
  \<close>
\<close>

fun build_row :: "int \<Rightarrow> int \<Rightarrow> int list \<Rightarrow> py_error + DayCell list" where
  "build_row year month [] = Inr []"
| "build_row year month (day_num # week) =
     (if day_num = 0
      then and_then (build_row year month week)
             (\<lambda>row. Inr (\<lparr>day = 0, date = None\<rparr> # row))
      else and_then (date_new year month day_num)
             (\<lambda>dt. and_then (build_row year month week)
                (\<lambda>row. Inr (\<lparr>day = day_num, date = Some dt\<rparr> # row))))"

fun build_weeks :: "int \<Rightarrow> int \<Rightarrow> int list list \<Rightarrow> py_error + DayCell list list" where
  "build_weeks year month [] = Inr []"
| "build_weeks year month (week # rest) =
     and_then (build_row year month week)
       (\<lambda>row. and_then (build_weeks year month rest) (\<lambda>weeks. Inr (row # weeks)))"

definition build_month_grid :: "int \<Rightarrow> int \<Rightarrow> py_error + DayCell list list" where
  "build_month_grid year month =
     and_then (monthdayscalendar SUNDAY year month) (build_weeks year month)"

text \<open>
  The previous/next navigation of \<open>month_view\<close> (the spec's \<open>adjacentMonths\<close>):
  \<open>first\<close>, \<open>prev_month\<close> and \<open>next_month\<close> of the source, and the four numbers the
  context takes from them.
  \<^verbatim>\<open>
    first = dt.date(year, month, 1)
    prev_month = (first - dt.timedelta(days=1)).replace(day=1)
    next_month = (first.replace(day=28) + dt.timedelta(days=4)).replace(day=1)
  \<close>
\<close>

definition adjacent_months :: "int \<Rightarrow> int \<Rightarrow> py_error + (int \<times> int \<times> int \<times> int)" where
  "adjacent_months year month =
     and_then (date_new year month 1) (\<lambda>first.
     and_then (date_sub first 1) (\<lambda>last_of_prev.
     and_then (replace_day last_of_prev 1) (\<lambda>prev_month.
     and_then (replace_day first 28) (\<lambda>day28.
     and_then (date_add day28 4) (\<lambda>in_next.
     and_then (replace_day in_next 1) (\<lambda>next_month.
       Inr (d_year prev_month, d_month prev_month,
            d_year next_month, d_month next_month)))))))"

text \<open>
  \<open>month_view\<close> up to the call of \<open>render\<close>: the context handed to the template, or the
  error that escapes the view.
\<close>

record Context =
  c_year :: int
  c_month :: int
  c_month_name :: string
  c_weeks :: "DayCell list list"
  c_prev_year :: int
  c_prev_month :: int
  c_next_year :: int
  c_next_month :: int
  c_today :: date

definition month_view :: "HttpRequest \<Rightarrow> date \<Rightarrow> py_error + Context" where
  "month_view request today =
     and_then (parse_year_month request today) (\<lambda>(year, month).
     and_then (date_new year month 1) (\<lambda>first.
     and_then (adjacent_months year month) (\<lambda>(prev_year, prev_month, next_year, next_month).
     and_then (build_month_grid year month) (\<lambda>weeks.
       Inr \<lparr>c_year = year, c_month = month, c_month_name = strftime_B first,
            c_weeks = weeks,
            c_prev_year = prev_year, c_prev_month = prev_month,
            c_next_year = next_year, c_next_month = next_month,
            c_today = today\<rparr>))))"

subsection \<open>Auxiliary notions for the proofs\<close>

text \<open>
  The slicing of \<open>monthdayscalendar\<close>, the numbers of leading and trailing zeros that
  \<open>itermonthdays\<close> computes for a Sunday-first calendar, the list it yields, and the cell
  that \<open>_build_month_grid\<close> makes of a day number.
\<close>

definition slices7 :: "'a list \<Rightarrow> 'a list list" where
  "slices7 xs = map (\<lambda>i. take 7 (drop i xs)) (py_range_step (length xs) 7)"

definition days_before :: "int \<Rightarrow> int \<Rightarrow> nat" where
  "days_before y m = nat (((ymd2ord y m 1 + 6) mod 7 - SUNDAY) mod 7)"

definition days_after :: "int \<Rightarrow> int \<Rightarrow> nat" where
  "days_after y m = nat ((SUNDAY - (ymd2ord y m 1 + 6) mod 7 - days_in_month y m) mod 7)"

definition month_days :: "int \<Rightarrow> int \<Rightarrow> int list" where
  "month_days y m =
     replicate (days_before y m) 0 @ [1..days_in_month y m] @ replicate (days_after y m) 0"

definition cell_of :: "int \<Rightarrow> int \<Rightarrow> int \<Rightarrow> DayCell" where
  "cell_of y m d =
     (if d = 0 then \<lparr>day = 0, date = None\<rparr>
      else \<lparr>day = d, date = Some \<lparr>d_year = y, d_month = m, d_day = d\<rparr>\<rparr>)"

text \<open>
  The last part of \<open>_ord2ymd\<close>, which finds the month and the day from the offset in
  the year; the length of a month and the offset of a day in the year, from the two tables.
\<close>

definition month_part :: "bool \<Rightarrow> int \<Rightarrow> int \<times> int" where
  "month_part leapyear n =
     (let mo = (n + 50) div 32;
          preceding = DAYS_BEFORE_MONTH ! nat mo + (if mo > 2 \<and> leapyear then 1 else 0)
      in if preceding > n
         then let mo = mo - 1;
                  preceding = preceding
                    - (DAYS_IN_MONTH ! nat mo + (if mo = 2 \<and> leapyear then 1 else 0))
              in (mo, n - preceding + 1)
         else (mo, n - preceding + 1))"

definition month_length :: "bool \<Rightarrow> int \<Rightarrow> int" where
  "month_length leapyear m = DAYS_IN_MONTH ! nat m + (if m = 2 \<and> leapyear then 1 else 0)"

definition day_offset :: "bool \<Rightarrow> int \<Rightarrow> int \<Rightarrow> int" where
  "day_offset leapyear m d =
     DAYS_BEFORE_MONTH ! nat m + (if m > 2 \<and> leapyear then 1 else 0) + d - 1"

text \<open>The error of \<open>date(year, month, day)\<close> for a year outside 1..9999.\<close>

definition year_error :: "int \<Rightarrow> py_error" where
  "year_error y = (if fits_c_int y then ValueError else OverflowError)"

section \<open>Properties of the library layer\<close>

lemma and_then_simps [simp]:
  "and_then (Inl e) f = Inl e" "and_then (Inr v) f = f v"
  by (simp_all add: and_then_def)

lemma month_cases:
  assumes "1 \<le> m" "m \<le> 12"
  obtains "m = 1" | "m = 2" | "m = 3" | "m = 4" | "m = 5" | "m = 6"
    | "m = 7" | "m = 8" | "m = 9" | "m = 10" | "m = 11" | "m = (12::int)"
proof -
  have "m = 1 \<or> m = 2 \<or> m = 3 \<or> m = 4 \<or> m = 5 \<or> m = 6
      \<or> m = 7 \<or> m = 8 \<or> m = 9 \<or> m = 10 \<or> m = 11 \<or> m = 12"
    using assms by arith
  then show thesis using that by blast
qed

lemma days_in_month_bounds:
  assumes "1 \<le> m" "m \<le> 12"
  shows "28 \<le> days_in_month y m \<and> days_in_month y m \<le> 31"
  using assms by (cases m rule: month_cases) (simp_all add: days_in_month_def DAYS_IN_MONTH_def)

lemma isleap_is_leap: "isleap y = is_leap y"
  by (simp add: isleap_def is_leap_def)

lemma mdays_days_in_month:
  assumes "1 \<le> m" "m \<le> 12"
  shows "mdays ! nat m + (if m = February \<and> isleap y then 1 else 0) = days_in_month y m"
  using assms
  by (cases m rule: month_cases)
     (simp_all add: days_in_month_def DAYS_IN_MONTH_def mdays_def February_def isleap_is_leap)

lemma date_new_valid:
  assumes "1 \<le> y" "y \<le> 9999" "1 \<le> m" "m \<le> 12" "1 \<le> d" "d \<le> days_in_month y m"
  shows "date_new y m d = Inr \<lparr>d_year = y, d_month = m, d_day = d\<rparr>"
proof -
  have "d \<le> 31" using assms(6) days_in_month_bounds [OF assms(3,4), of y] by simp
  then have "fits_c_int y" "fits_c_int m" "fits_c_int d"
    using assms(1-5) by (simp_all add: fits_c_int_def INT_MIN_def INT_MAX_def)
  then show ?thesis
    using assms by (simp add: date_new_def MINYEAR_def MAXYEAR_def)
qed

lemma monthrange_valid:
  assumes "1 \<le> y" "y \<le> 9999" "1 \<le> m" "m \<le> 12"
  shows "monthrange y m = Inr ((ymd2ord y m 1 + 6) mod 7, days_in_month y m)"
proof -
  have "1 \<le> days_in_month y m" using days_in_month_bounds [OF assms(3,4), of y] by simp
  then have "date_new y m 1 = Inr \<lparr>d_year = y, d_month = m, d_day = 1\<rparr>"
    using assms by (simp add: date_new_valid)
  then have "weekday y m 1 = Inr ((ymd2ord y m 1 + 6) mod 7)"
    using assms by (simp add: weekday_def MINYEAR_def MAXYEAR_def date_weekday_def toordinal_def)
  then show ?thesis
    using assms by (simp add: monthrange_def mdays_days_in_month)
qed

section \<open>The calendar of a month\<close>

lemma concat_slices_upto:
  "concat (map (\<lambda>i. take k (drop i xs)) (map (\<lambda>j. j * k) [0..<n])) = take (n * k) xs"
proof (induction n)
  case 0
  show ?case by simp
next
  case (Suc n)
  have "take (n * k + k) xs = take (n * k) xs @ take k (drop (n * k) xs)"
    by (rule take_add)
  moreover have "Suc n * k = n * k + k" by simp
  ultimately have "take (Suc n * k) xs = take (n * k) xs @ take k (drop (n * k) xs)"
    by (simp only:)
  with Suc show ?case by simp
qed

lemma concat_slices7: "concat (slices7 xs) = xs"
  unfolding slices7_def py_range_step_def concat_slices_upto by simp

lemma length_slices7: "length (slices7 xs) = (length xs + 6) div 7"
  by (simp add: slices7_def py_range_step_def)

lemma nth_slices7:
  assumes "w < length (slices7 xs)"
  shows "slices7 xs ! w = take 7 (drop (w * 7) xs)"
  using assms by (simp add: slices7_def py_range_step_def)

lemma length_nth_slices7:
  assumes "7 dvd length xs" "w < length (slices7 xs)"
  shows "length (slices7 xs ! w) = 7"
proof -
  from assms(1) obtain q where q: "length xs = 7 * q" by (auto simp: dvd_def)
  with assms(2) have "w < q" by (simp add: length_slices7)
  then have "7 \<le> length xs - w * 7" using q by simp
  then show ?thesis using assms(2) by (simp add: nth_slices7)
qed

lemma nth_nth_slices7:
  assumes "7 dvd length xs" "w < length (slices7 xs)" "c < 7"
  shows "slices7 xs ! w ! c = xs ! (w * 7 + c)"
proof -
  from assms(1) obtain q where q: "length xs = 7 * q" by (auto simp: dvd_def)
  with assms(2) have "w < q" by (simp add: length_slices7)
  then have "w * 7 + c < length xs" using q assms(3) by simp
  then show ?thesis using assms by (simp add: nth_slices7)
qed

lemma set_slices7: "w \<in> set (slices7 xs) \<Longrightarrow> set w \<subseteq> set xs"
  by (auto simp: slices7_def dest: in_set_takeD in_set_dropD)

lemma itermonthdays_valid:
  assumes "1 \<le> y" "y \<le> 9999" "1 \<le> m" "m \<le> 12"
  shows "itermonthdays SUNDAY y m = Inr (month_days y m)"
  using assms
  by (simp add: itermonthdays_def monthrange_valid month_days_def days_before_def days_after_def)

lemma monthdayscalendar_valid:
  assumes "1 \<le> y" "y \<le> 9999" "1 \<le> m" "m \<le> 12"
  shows "monthdayscalendar SUNDAY y m = Inr (slices7 (month_days y m))"
  using assms by (simp add: monthdayscalendar_def itermonthdays_valid slices7_def)

lemma length_month_days:
  assumes "1 \<le> m" "m \<le> 12"
  shows "length (month_days y m) = days_before y m + nat (days_in_month y m) + days_after y m"
  by (simp add: month_days_def)

lemma days_before_less: "days_before y m < 7"
  by (simp add: days_before_def nat_less_iff)

lemma days_after_less: "days_after y m < 7"
  by (simp add: days_after_def nat_less_iff)

lemma month_days_dvd:
  assumes "1 \<le> m" "m \<le> 12"
  shows "7 dvd length (month_days y m)"
proof -
  define w where "w = (ymd2ord y m 1 + 6) mod 7"
  define n where "n = days_in_month y m"
  have n: "0 \<le> n" using days_in_month_bounds [OF assms, of y] by (simp add: n_def)
  have "((w - 6) mod 7 + n + (6 - w - n) mod 7) mod 7 = 0" by presburger
  moreover have "int (length (month_days y m)) = (w - 6) mod 7 + n + (6 - w - n) mod 7"
    using n by (simp add: length_month_days assms days_before_def days_after_def SUNDAY_def w_def n_def)
  ultimately have "int (length (month_days y m)) mod 7 = 0" by simp
  then show ?thesis by presburger
qed

lemma set_month_days:
  "d \<in> set (month_days y m) \<Longrightarrow> d = 0 \<or> (1 \<le> d \<and> d \<le> days_in_month y m)"
  by (auto simp: month_days_def)

lemma build_row_valid:
  assumes "1 \<le> y" "y \<le> 9999" "1 \<le> m" "m \<le> 12"
    and "\<forall>d \<in> set week. d = 0 \<or> (1 \<le> d \<and> d \<le> days_in_month y m)"
  shows "build_row y m week = Inr (map (cell_of y m) week)"
  using assms(5)
proof (induction week)
  case Nil
  show ?case by simp
next
  case (Cons d week)
  have rest: "build_row y m week = Inr (map (cell_of y m) week)"
    using Cons by simp
  show ?case
  proof (cases "d = 0")
    case True
    then show ?thesis using rest by (simp add: cell_of_def)
  next
    case False
    then have "1 \<le> d \<and> d \<le> days_in_month y m" using Cons.prems by simp
    then have "date_new y m d = Inr \<lparr>d_year = y, d_month = m, d_day = d\<rparr>"
      using assms(1-4) by (simp add: date_new_valid)
    then show ?thesis using rest False by (simp add: cell_of_def)
  qed
qed

lemma build_weeks_valid:
  assumes "1 \<le> y" "y \<le> 9999" "1 \<le> m" "m \<le> 12"
    and "\<forall>week \<in> set cal. \<forall>d \<in> set week. d = 0 \<or> (1 \<le> d \<and> d \<le> days_in_month y m)"
  shows "build_weeks y m cal = Inr (map (map (cell_of y m)) cal)"
  using assms(5)
proof (induction cal)
  case Nil
  show ?case by simp
next
  case (Cons week cal)
  have "build_row y m week = Inr (map (cell_of y m) week)"
    using Cons.prems by (simp add: build_row_valid assms(1-4))
  moreover have "build_weeks y m cal = Inr (map (map (cell_of y m)) cal)"
    using Cons by simp
  ultimately show ?case by simp
qed

lemma build_month_grid_valid:
  assumes "1 \<le> y" "y \<le> 9999" "1 \<le> m" "m \<le> 12"
  shows "build_month_grid y m = Inr (map (map (cell_of y m)) (slices7 (month_days y m)))"
proof -
  have "build_weeks y m (slices7 (month_days y m))
      = Inr (map (map (cell_of y m)) (slices7 (month_days y m)))"
  proof (rule build_weeks_valid [OF assms], intro ballI)
    fix week d
    assume "week \<in> set (slices7 (month_days y m))" "d \<in> set week"
    then have "d \<in> set (month_days y m)" using set_slices7 by blast
    then show "d = 0 \<or> (1 \<le> d \<and> d \<le> days_in_month y m)" by (rule set_month_days)
  qed
  then show ?thesis
    using assms by (simp add: build_month_grid_def monthdayscalendar_valid)
qed

lemma day_cell_of [simp]: "day (cell_of y m d) = d"
  by (simp add: cell_of_def)

lemma map_day_grid:
  "map day (concat (map (map (cell_of y m)) (slices7 xs))) = xs"
proof -
  have "concat (map (map (cell_of y m)) (slices7 xs)) = map (cell_of y m) (concat (slices7 xs))"
    by (simp add: map_concat)
  then show ?thesis by (simp add: concat_slices7 comp_def)
qed

lemma filter_month_days:
  "filter (\<lambda>d. d \<noteq> 0) (month_days y m) = [1..days_in_month y m]"
proof -
  have "filter (\<lambda>d. d \<noteq> 0) [1..days_in_month y m] = [1..days_in_month y m]"
    by (rule filter_True) auto
  then show ?thesis by (simp add: month_days_def)
qed

section \<open>The month grid\<close>

text \<open>
  Claim C1. For every year in 1..9999 and month in 1..12 the grid is built, and the
  non-zero \<open>day\<close> values of its cells, read week by week and cell by cell, are exactly
  the list 1, 2, ..., \<open>days_in_month year month\<close>: as a multiset they are the set
  \<open>{1..days_in_month year month}\<close>, each day once, and they are strictly increasing.
\<close>

theorem build_month_grid_days:
  assumes "1 \<le> year" "year \<le> 9999" "1 \<le> month" "month \<le> 12"
  shows "\<exists>weeks. build_month_grid year month = Inr weeks
           \<and> filter (\<lambda>d. d \<noteq> 0) (map day (concat weeks)) = [1..days_in_month year month]
           \<and> mset (filter (\<lambda>d. d \<noteq> 0) (map day (concat weeks)))
               = mset_set {1..days_in_month year month}
           \<and> sorted_wrt (<) (filter (\<lambda>d. d \<noteq> 0) (map day (concat weeks)))"
proof -
  let ?weeks = "map (map (cell_of year month)) (slices7 (month_days year month))"
  have days: "filter (\<lambda>d. d \<noteq> 0) (map day (concat ?weeks)) = [1..days_in_month year month]"
    by (simp only: map_day_grid filter_month_days)
  have m: "mset [1..days_in_month year month] = mset_set {1..days_in_month year month}"
    using mset_set_set [of "[1..days_in_month year month]"] by simp
  have s: "sorted_wrt (<) [1..days_in_month year month]"
    by (simp add: sorted_wrt_upto)
  show ?thesis
  proof (intro exI conjI)
    show "build_month_grid year month = Inr ?weeks"
      by (rule build_month_grid_valid [OF assms])
    show "filter (\<lambda>d. d \<noteq> 0) (map day (concat ?weeks)) = [1..days_in_month year month]"
      by (rule days)
    show "mset (filter (\<lambda>d. d \<noteq> 0) (map day (concat ?weeks)))
        = mset_set {1..days_in_month year month}"
      unfolding days by (rule m)
    show "sorted_wrt (<) (filter (\<lambda>d. d \<noteq> 0) (map day (concat ?weeks)))"
      unfolding days by (rule s)
  qed
qed

theorem build_month_grid_days_witness:
  "(1::int) \<le> 2024 \<and> (2024::int) \<le> 9999 \<and> (1::int) \<le> 2 \<and> (2::int) \<le> 12
   \<and> (\<exists>weeks. build_month_grid 2024 2 = Inr weeks
           \<and> filter (\<lambda>d. d \<noteq> 0) (map day (concat weeks)) = [1..29]
           \<and> mset (filter (\<lambda>d. d \<noteq> 0) (map day (concat weeks))) = mset_set {1..29}
           \<and> sorted_wrt (<) (filter (\<lambda>d. d \<noteq> 0) (map day (concat weeks))))"
proof -
  have "days_in_month 2024 2 = 29" by (simp add: days_in_month_def is_leap_def)
  with build_month_grid_days [of 2024 2] show ?thesis by simp
qed

text \<open>
  Claim C2. For every year in 1..9999 and month in 1..12 every week of the grid has
  exactly 7 cells.
\<close>

theorem build_month_grid_week_length:
  assumes "1 \<le> year" "year \<le> 9999" "1 \<le> month" "month \<le> 12"
  shows "\<exists>weeks. build_month_grid year month = Inr weeks
           \<and> (\<forall>week \<in> set weeks. length week = 7)"
proof -
  let ?cal = "slices7 (month_days year month)"
  have "\<forall>week \<in> set ?cal. length week = 7"
    using length_nth_slices7 [OF month_days_dvd [OF assms(3,4)]]
    by (auto simp: in_set_conv_nth)
  then show ?thesis
    using build_month_grid_valid [OF assms] by simp
qed

theorem build_month_grid_week_length_witness:
  "(1::int) \<le> 2024 \<and> (2024::int) \<le> 9999 \<and> (1::int) \<le> 2 \<and> (2::int) \<le> 12
   \<and> (\<exists>weeks. build_month_grid 2024 2 = Inr weeks \<and> (\<forall>week \<in> set weeks. length week = 7))"
  using build_month_grid_week_length [of 2024 2] by simp

text \<open>
  Claim C8. For every year in 1..9999 and month in 1..12 the grid has between 4 and 6
  weeks.
\<close>

theorem build_month_grid_week_count:
  assumes "1 \<le> year" "year \<le> 9999" "1 \<le> month" "month \<le> 12"
  shows "\<exists>weeks. build_month_grid year month = Inr weeks
           \<and> 4 \<le> length weeks \<and> length weeks \<le> 6"
proof -
  have "28 \<le> days_in_month year month \<and> days_in_month year month \<le> 31"
    using assms by (simp add: days_in_month_bounds)
  then have "28 \<le> length (month_days year month) \<and> length (month_days year month) \<le> 43"
    using days_before_less [of year month] days_after_less [of year month]
    unfolding length_month_days [OF assms(3,4)] by arith
  moreover have "7 dvd length (month_days year month)"
    using assms by (simp add: month_days_dvd)
  ultimately have "4 \<le> (length (month_days year month) + 6) div 7
      \<and> (length (month_days year month) + 6) div 7 \<le> 6"
    by presburger
  then show ?thesis
    using build_month_grid_valid [OF assms] by (simp add: length_slices7)
qed

theorem build_month_grid_week_count_witness:
  "(1::int) \<le> 2015 \<and> (2015::int) \<le> 9999 \<and> (1::int) \<le> 2 \<and> (2::int) \<le> 12
   \<and> (\<exists>weeks. build_month_grid 2015 2 = Inr weeks \<and> 4 \<le> length weeks \<and> length weeks \<le> 6)"
  using build_month_grid_week_count [of 2015 2] by simp

text \<open>The grids of February 2024 and of February 2023, by evaluation.\<close>

lemma grid_2024_2:
  "build_month_grid 2024 2 = Inr (map (map (cell_of 2024 2))
     [[0, 0, 0, 0, 1, 2, 3], [4, 5, 6, 7, 8, 9, 10], [11, 12, 13, 14, 15, 16, 17],
      [18, 19, 20, 21, 22, 23, 24], [25, 26, 27, 28, 29, 0, 0]])"
  by code_simp

lemma grid_2023_2:
  "build_month_grid 2023 2 = Inr (map (map (cell_of 2023 2))
     [[0, 0, 0, 1, 2, 3, 4], [5, 6, 7, 8, 9, 10, 11], [12, 13, 14, 15, 16, 17, 18],
      [19, 20, 21, 22, 23, 24, 25], [26, 27, 28, 0, 0, 0, 0]])"
  by code_simp

lemma build_row_cells:
  "build_row y m week = Inr row \<Longrightarrow> cell \<in> set row \<Longrightarrow>
     (date cell = None) = (day cell = 0)
     \<and> (\<forall>dt. date cell = Some dt \<longrightarrow> d_day dt = day cell \<and> d_month dt = m \<and> d_year dt = y)"
proof (induction week arbitrary: row)
  case Nil
  then show ?case by simp
next
  case (Cons d week)
  show ?case
  proof (cases "d = 0")
    case True
    with Cons.prems obtain row' where "build_row y m week = Inr row'"
      and "row = \<lparr>day = 0, date = None\<rparr> # row'"
      by (auto simp: and_then_def split: sum.splits)
    with Cons.IH [of row'] Cons.prems(2) show ?thesis by auto
  next
    case False
    with Cons.prems obtain dt row' where dt: "date_new y m d = Inr dt"
      and "build_row y m week = Inr row'"
      and "row = \<lparr>day = d, date = Some dt\<rparr> # row'"
      by (auto simp: and_then_def split: sum.splits)
    moreover from dt have "dt = \<lparr>d_year = y, d_month = m, d_day = d\<rparr>"
      by (auto simp: date_new_def split: if_splits)
    ultimately show ?thesis using Cons.IH [of row'] Cons.prems(2) False by auto
  qed
qed

lemma build_weeks_cells:
  "build_weeks y m cal = Inr weeks \<Longrightarrow> row \<in> set weeks \<Longrightarrow> \<exists>week. build_row y m week = Inr row"
proof (induction cal arbitrary: weeks)
  case Nil
  then show ?case by simp
next
  case (Cons week cal)
  from Cons.prems(1) obtain r weeks' where "build_row y m week = Inr r"
    and "build_weeks y m cal = Inr weeks'" and "weeks = r # weeks'"
    by (auto simp: and_then_def split: sum.splits)
  with Cons.IH [of weeks'] Cons.prems(2) show ?case by auto
qed

text \<open>
  Claim C3. In every cell of a grid that \<open>build_month_grid year month\<close> returns, the
  \<open>date\<close> is present if and only if \<open>day\<close> is not 0, and a date that is present has the
  cell's \<open>day\<close> as its day, and the requested month and year.
\<close>

theorem build_month_grid_cell_date:
  assumes "build_month_grid year month = Inr weeks" "week \<in> set weeks" "cell \<in> set week"
  shows "(date cell \<noteq> None) = (day cell \<noteq> 0)
     \<and> (\<forall>dt. date cell = Some dt
            \<longrightarrow> d_day dt = day cell \<and> d_month dt = month \<and> d_year dt = year)"
proof -
  from assms(1) obtain cal where "build_weeks year month cal = Inr weeks"
    by (auto simp: build_month_grid_def and_then_def split: sum.splits)
  with assms(2) obtain w where "build_row year month w = Inr week"
    using build_weeks_cells by blast
  with assms(3) show ?thesis using build_row_cells [of year month w week cell] by simp
qed

theorem build_month_grid_cell_date_witness:
  "\<exists>weeks week cell dt. build_month_grid 2024 2 = Inr weeks \<and> week \<in> set weeks
      \<and> cell \<in> set week \<and> date cell = Some dt \<and> day cell = 29
      \<and> d_day dt = day cell \<and> d_month dt = 2 \<and> d_year dt = 2024"
proof -
  let ?weeks = "map (map (cell_of 2024 2)) [[0, 0, 0, 0, 1, 2, 3], [4, 5, 6, 7, 8, 9, 10],
    [11, 12, 13, 14, 15, 16, 17], [18, 19, 20, 21, 22, 23, 24], [25, 26, 27, 28, 29, 0, 0]]"
  let ?week = "map (cell_of 2024 2) [25, 26, 27, 28, 29, 0, 0]"
  let ?cell = "cell_of 2024 2 29"
  let ?dt = "\<lparr>d_year = 2024, d_month = 2, d_day = 29\<rparr>"
  have g: "build_month_grid 2024 2 = Inr ?weeks" by (rule grid_2024_2)
  have w: "?week \<in> set ?weeks" by simp
  have c: "?cell \<in> set ?week" by simp
  have d: "date ?cell = Some ?dt" by (simp add: cell_of_def)
  from build_month_grid_cell_date [OF g w c] d
  have "d_day ?dt = day ?cell \<and> d_month ?dt = 2 \<and> d_year ?dt = 2024" by blast
  with g w c d show ?thesis by (intro exI [of _ ?weeks] exI [of _ ?week] exI [of _ ?cell] exI [of _ ?dt]) simp
qed

lemma nth_month_days:
  assumes "1 \<le> m" "m \<le> 12" "i < length (month_days y m)"
  shows "month_days y m ! i =
     (if i < days_before y m then 0
      else if i < days_before y m + nat (days_in_month y m) then int (i - days_before y m) + 1
      else 0)"
proof -
  have n: "28 \<le> days_in_month y m" using days_in_month_bounds [OF assms(1,2), of y] by simp
  have len: "length [1..days_in_month y m] = nat (days_in_month y m)" by simp
  show ?thesis
  proof (cases "i < days_before y m")
    case True
    then show ?thesis by (simp add: month_days_def nth_append)
  next
    case b: False
    show ?thesis
    proof (cases "i < days_before y m + nat (days_in_month y m)")
      case True
      then have "1 + int (i - days_before y m) \<le> days_in_month y m" using b by linarith
      then have "[1..days_in_month y m] ! (i - days_before y m) = 1 + int (i - days_before y m)"
        by (rule nth_upto)
      then show ?thesis using b True by (simp add: month_days_def nth_append)
    next
      case False
      then have "i - days_before y m - nat (days_in_month y m) < days_after y m"
        using assms(3) b unfolding length_month_days [OF assms(1,2)] by linarith
      moreover have "\<not> i - days_before y m < nat (days_in_month y m)"
        using b False by linarith
      ultimately have "([1..days_in_month y m] @ replicate (days_after y m) 0)
          ! (i - days_before y m) = 0"
        by (simp only: nth_append len if_False nth_replicate)
      then show ?thesis using b False by (simp add: month_days_def nth_append [of "replicate _ _"])
    qed
  qed
qed

lemma grid_nth:
  assumes "1 \<le> m" "m \<le> 12" "w < length (slices7 (month_days y m))" "c < 7"
  shows "map (map (cell_of y m)) (slices7 (month_days y m)) ! w ! c
       = cell_of y m (month_days y m ! (w * 7 + c))"
proof -
  have d: "7 dvd length (month_days y m)" using assms by (simp add: month_days_dvd)
  have "length (slices7 (month_days y m) ! w) = 7"
    using d assms(3) by (rule length_nth_slices7)
  then show ?thesis
    using assms nth_nth_slices7 [OF d assms(3,4)] by simp
qed

lemma date_cell_of:
  "date (cell_of y m d) = Some dt \<longleftrightarrow> d \<noteq> 0 \<and> dt = \<lparr>d_year = y, d_month = m, d_day = d\<rparr>"
  by (auto simp: cell_of_def)

lemma days_before_mod: "int (days_before y m) = ymd2ord y m 1 mod 7"
proof -
  have "((ymd2ord y m 1 + 6) mod 7 - 6) mod 7 = ymd2ord y m 1 mod 7" by presburger
  then show ?thesis by (simp add: days_before_def SUNDAY_def)
qed

lemma weekday_column:
  assumes "int b = o1 mod 7" "b \<le> w * 7 + c" "c < 7"
  shows "int c = ((o1 + (int (w * 7 + c - b) + 1) - 1 + 6) mod 7 + 1) mod 7"
proof -
  define e where "e = o1 div 7"
  define k where "k = int (w * 7 + c - b)"
  have k: "k = int w * 7 + int c - int b" using assms(2) by (simp add: k_def)
  have "o1 = 7 * e + int b" by (simp add: e_def assms(1))
  then have "o1 + (k + 1) - 1 + 7 = int c + 7 * (e + int w + 1)"
    by (simp add: k)
  then have "(o1 + (k + 1) - 1 + 7) mod 7 = int c mod 7"
    by (simp only: mod_mult_self2)
  moreover have "((o1 + (k + 1) - 1 + 6) mod 7 + 1) mod 7 = (o1 + (k + 1) - 1 + 7) mod 7"
    by (simp add: mod_simps)
  ultimately show ?thesis using assms(3) by (simp add: k_def)
qed

lemma pad_position:
  fixes q b n a w c :: nat
  assumes "7 * q = b + n + a" "w < q" "c < 7" "b < 7" "a < 7" "28 \<le> n"
  shows "(w * 7 + c < b \<or> b + n \<le> w * 7 + c)
       = ((w = 0 \<and> c < b) \<or> (w = q - 1 \<and> 7 - a \<le> c))"
proof -
  have lead: "(w * 7 + c < b) = (w = 0 \<and> c < b)"
  proof (cases "w = 0")
    case True
    then show ?thesis by simp
  next
    case False
    then have "7 \<le> w * 7 + c" by linarith
    then show ?thesis using False assms(4) by linarith
  qed
  have trail: "(b + n \<le> w * 7 + c) = (w = q - 1 \<and> 7 - a \<le> c)"
  proof (cases "w = q - 1")
    case True
    then have "q = w + 1" using assms(2) by linarith
    then have "b + n + a = w * 7 + 7" using assms(1) by linarith
    then show ?thesis using True assms(5) by linarith
  next
    case False
    then have "w + 2 \<le> q" using assms(2) by linarith
    then have "w * 7 + 14 \<le> b + n + a" using assms(1) by linarith
    then have "w * 7 + c < b + n" using assms(3,5) by linarith
    then show ?thesis using False by simp
  qed
  show ?thesis by (simp only: lead trail)
qed

text \<open>
  Claim C10. For every year in 1..9999 and month in 1..12 there are \<open>b < 7\<close> and
  \<open>a < 7\<close> such that the padding cells (\<open>day = 0\<close>) are exactly the first \<open>b\<close> cells of the
  first week and the last \<open>a\<close> cells of the last week, so no other week has padding;
  every cell with a date holds \<open>date(year, month, day)\<close> and sits in the column that is the
  Sunday-based weekday index of that date (\<open>weekday() + 1\<close> modulo 7); and a date in the
  first column of any week is a Sunday (\<open>weekday() = 6\<close>).
\<close>

theorem build_month_grid_layout:
  assumes "1 \<le> year" "year \<le> 9999" "1 \<le> month" "month \<le> 12"
  shows "\<exists>weeks b a. build_month_grid year month = Inr weeks \<and> b < 7 \<and> a < 7
     \<and> (\<forall>w < length weeks. \<forall>c < 7.
           (day (weeks ! w ! c) = 0)
             = ((w = 0 \<and> c < b) \<or> (w = length weeks - 1 \<and> 7 - a \<le> c)))
     \<and> (\<forall>w < length weeks. \<forall>c < 7. \<forall>dt. date (weeks ! w ! c) = Some dt \<longrightarrow>
           dt = \<lparr>d_year = year, d_month = month, d_day = day (weeks ! w ! c)\<rparr>
           \<and> int c = (date_weekday dt + 1) mod 7)
     \<and> (\<forall>w < length weeks. \<forall>dt. date (weeks ! w ! 0) = Some dt \<longrightarrow> date_weekday dt = 6)"
proof -
  let ?xs = "month_days year month"
  let ?weeks = "map (map (cell_of year month)) (slices7 ?xs)"
  let ?b = "days_before year month"
  let ?a = "days_after year month"
  let ?n = "nat (days_in_month year month)"
  have n: "28 \<le> ?n" using days_in_month_bounds [OF assms(3,4), of year] by linarith
  have len: "length ?xs = ?b + ?n + ?a" by (rule length_month_days [OF assms(3,4)])
  from month_days_dvd [OF assms(3,4), of year]
  obtain q where q: "length ?xs = 7 * q" by (auto simp: dvd_def)
  have W: "length ?weeks = q" by (simp add: length_slices7 q)
  have b: "?b < 7" by (rule days_before_less)
  have a: "?a < 7" by (rule days_after_less)
  have cell: "?weeks ! w ! c = cell_of year month (?xs ! (w * 7 + c))"
    if "w < length ?weeks" "c < 7" for w c
    using that grid_nth [OF assms(3,4), of w year c] by simp
  have idx: "w * 7 + c < length ?xs" if "w < length ?weeks" "c < 7" for w c
    using that W q by simp
  have pad: "(day (?weeks ! w ! c) = 0)
       = ((w = 0 \<and> c < ?b) \<or> (w = length ?weeks - 1 \<and> 7 - ?a \<le> c))"
    if w: "w < length ?weeks" and c: "c < 7" for w c
  proof -
    have "(day (?weeks ! w ! c) = 0) = (w * 7 + c < ?b \<or> ?b + ?n \<le> w * 7 + c)"
      using nth_month_days [OF assms(3,4) idx [OF w c]] by (simp add: cell [OF w c])
    also have "\<dots> = ((w = 0 \<and> c < ?b) \<or> (w = length ?weeks - 1 \<and> 7 - ?a \<le> c))"
      using w unfolding W by (intro pad_position [OF _ _ c b a n]) (simp_all add: len [symmetric] q)
    finally show ?thesis .
  qed
  have col: "dt = \<lparr>d_year = year, d_month = month, d_day = day (?weeks ! w ! c)\<rparr>
       \<and> int c = (date_weekday dt + 1) mod 7"
    if w: "w < length ?weeks" and c: "c < 7" and dt: "date (?weeks ! w ! c) = Some dt" for w c dt
  proof -
    let ?i = "w * 7 + c"
    from dt have nz: "?xs ! ?i \<noteq> 0"
      and dt': "dt = \<lparr>d_year = year, d_month = month, d_day = ?xs ! ?i\<rparr>"
      by (simp_all add: cell [OF w c] date_cell_of)
    from nz have i: "?b \<le> ?i" and d: "?xs ! ?i = int (?i - ?b) + 1"
      using nth_month_days [OF assms(3,4) idx [OF w c]] by (simp_all split: if_splits)
    have "date_weekday dt = (ymd2ord year month 1 + (int (?i - ?b) + 1) - 1 + 6) mod 7"
      by (simp add: dt' d date_weekday_def toordinal_def ymd2ord_def)
    then have "int c = (date_weekday dt + 1) mod 7"
      using weekday_column [OF days_before_mod i c] by simp
    then show ?thesis using dt' by (simp add: cell [OF w c])
  qed
  have sunday: "date_weekday dt = 6"
    if w: "w < length ?weeks" and dt: "date (?weeks ! w ! 0) = Some dt" for w dt
  proof -
    have "(0::nat) < 7" by simp
    from col [OF w this dt] have "int 0 = (date_weekday dt + 1) mod 7" by (rule conjunct2)
    moreover have "0 \<le> date_weekday dt \<and> date_weekday dt < 7" by (simp add: date_weekday_def)
    ultimately show ?thesis by presburger
  qed
  show ?thesis
  proof (intro exI conjI)
    show "build_month_grid year month = Inr ?weeks" by (rule build_month_grid_valid [OF assms])
    show "?b < 7" by (rule b)
    show "?a < 7" by (rule a)
    show "\<forall>w < length ?weeks. \<forall>c < 7. (day (?weeks ! w ! c) = 0)
             = ((w = 0 \<and> c < ?b) \<or> (w = length ?weeks - 1 \<and> 7 - ?a \<le> c))"
    proof (intro allI impI)
      fix w c :: nat
      assume "w < length ?weeks" "c < 7"
      then show "(day (?weeks ! w ! c) = 0)
             = ((w = 0 \<and> c < ?b) \<or> (w = length ?weeks - 1 \<and> 7 - ?a \<le> c))"
        by (rule pad)
    qed
    show "\<forall>w < length ?weeks. \<forall>c < 7. \<forall>dt. date (?weeks ! w ! c) = Some dt \<longrightarrow>
           dt = \<lparr>d_year = year, d_month = month, d_day = day (?weeks ! w ! c)\<rparr>
           \<and> int c = (date_weekday dt + 1) mod 7"
    proof (intro allI impI)
      fix w c :: nat and dt
      assume "w < length ?weeks" "c < 7" "date (?weeks ! w ! c) = Some dt"
      then show "dt = \<lparr>d_year = year, d_month = month, d_day = day (?weeks ! w ! c)\<rparr>
           \<and> int c = (date_weekday dt + 1) mod 7"
        by (rule col)
    qed
    show "\<forall>w < length ?weeks. \<forall>dt. date (?weeks ! w ! 0) = Some dt \<longrightarrow> date_weekday dt = 6"
    proof (intro allI impI)
      fix w :: nat and dt
      assume "w < length ?weeks" "date (?weeks ! w ! 0) = Some dt"
      then show "date_weekday dt = 6" by (rule sunday)
    qed
  qed
qed

theorem build_month_grid_layout_witness:
  "(1::int) \<le> 2024 \<and> (2024::int) \<le> 9999 \<and> (1::int) \<le> 2 \<and> (2::int) \<le> 12
   \<and> (\<exists>weeks b a. build_month_grid 2024 2 = Inr weeks \<and> b < 7 \<and> a < 7
     \<and> (\<forall>w < length weeks. \<forall>c < 7.
           (day (weeks ! w ! c) = 0)
             = ((w = 0 \<and> c < b) \<or> (w = length weeks - 1 \<and> 7 - a \<le> c)))
     \<and> (\<forall>w < length weeks. \<forall>c < 7. \<forall>dt. date (weeks ! w ! c) = Some dt \<longrightarrow>
           dt = \<lparr>d_year = 2024, d_month = 2, d_day = day (weeks ! w ! c)\<rparr>
           \<and> int c = (date_weekday dt + 1) mod 7)
     \<and> (\<forall>w < length weeks. \<forall>dt. date (weeks ! w ! 0) = Some dt \<longrightarrow> date_weekday dt = 6))"
proof -
  have "(1::int) \<le> 2024" "(2024::int) \<le> 9999" "(1::int) \<le> 2" "(2::int) \<le> 12" by simp_all
  from this build_month_grid_layout [OF this] show ?thesis by (intro conjI)
qed

section \<open>Year and month of a request\<close>

lemma int_of_str_error: "int_of_str s = Inl e \<Longrightarrow> e = ValueError"
  by (auto simp: int_of_str_def Let_def split: list.splits if_splits option.splits prod.splits)

lemma py_int_error: "py_int x = Inl e \<Longrightarrow> e = ValueError"
  by (cases x) (auto simp: py_int_def dest: int_of_str_error)

lemma parse_year_month_total: "\<exists>year month. parse_year_month request today = Inr (year, month)"
proof -
  let ?y = "py_int (QueryDict_get (GET request) ''year'' (PyInt (d_year today)))"
  let ?m = "py_int (QueryDict_get (GET request) ''month'' (PyInt (d_month today)))"
  show ?thesis
  proof (cases ?y)
    case (Inl e)
    then have "e = ValueError" by (rule py_int_error)
    with Inl show ?thesis by (simp add: parse_year_month_def is_ValueError_def)
  next
    case y: (Inr year)
    show ?thesis
    proof (cases ?m)
      case (Inl e)
      then have "e = ValueError" by (rule py_int_error)
      with Inl y show ?thesis by (simp add: parse_year_month_def is_ValueError_def)
    next
      case (Inr month)
      with y show ?thesis by (simp add: parse_year_month_def is_ValueError_def)
    qed
  qed
qed

lemma parse_year_month_eq:
  "parse_year_month request today =
     (case py_int (QueryDict_get (GET request) ''year'' (PyInt (d_year today))) of
        Inl e \<Rightarrow> Inr (d_year today, d_month today)
      | Inr year \<Rightarrow>
          (case py_int (QueryDict_get (GET request) ''month'' (PyInt (d_month today))) of
             Inl e \<Rightarrow> Inr (d_year today, d_month today)
           | Inr month \<Rightarrow>
               if month < 1 \<or> month > 12 then Inr (d_year today, d_month today)
               else Inr (year, month)))"
  by (auto simp: parse_year_month_def is_ValueError_def split: sum.splits dest: py_int_error)

lemma int_of_str_13: "int_of_str ''13'' = Inr 13"
  by code_simp

lemma get_present: "q key = Some s \<Longrightarrow> py_int (QueryDict_get q key d) = int_of_str s"
  by (simp add: QueryDict_get_def py_int_def)

lemma get_absent: "q key = None \<Longrightarrow> py_int (QueryDict_get q key (PyInt i)) = Inr i"
  by (simp add: QueryDict_get_def py_int_def)

text \<open>
  Claim C4, amended. \<open>parse_year_month\<close> returns today's year and today's month, both,
  whenever a supplied year or month string is not numeric, or the supplied month parses
  to a number outside 1..12 (so for the month string "13"), or both parameters are
  missing. A missing parameter alone is no fallback: it defaults only its own field. With
  the year missing and a supplied month that parses to \<open>m\<close> in 1..12 the result is (today's
  year, \<open>m\<close>); with the month missing and a supplied year that parses to \<open>y\<close> the result is
  (\<open>y\<close>, today's month).
\<close>

theorem parse_year_month_fallback:
  "(GET request ''year'' = Some ys \<longrightarrow> int_of_str ys = Inl e
      \<longrightarrow> parse_year_month request today = Inr (d_year today, d_month today))
   \<and> (GET request ''month'' = Some ms \<longrightarrow> int_of_str ms = Inl e
      \<longrightarrow> parse_year_month request today = Inr (d_year today, d_month today))
   \<and> (GET request ''month'' = Some ms \<longrightarrow> int_of_str ms = Inr m \<longrightarrow> m < 1 \<or> 12 < m
      \<longrightarrow> parse_year_month request today = Inr (d_year today, d_month today))
   \<and> (GET request ''month'' = Some ''13''
      \<longrightarrow> parse_year_month request today = Inr (d_year today, d_month today))
   \<and> (GET request ''year'' = None \<longrightarrow> GET request ''month'' = None
      \<longrightarrow> parse_year_month request today = Inr (d_year today, d_month today))
   \<and> (GET request ''year'' = None \<longrightarrow> GET request ''month'' = Some ms
      \<longrightarrow> int_of_str ms = Inr m \<longrightarrow> 1 \<le> m \<longrightarrow> m \<le> 12
      \<longrightarrow> parse_year_month request today = Inr (d_year today, m))
   \<and> (GET request ''year'' = Some ys \<longrightarrow> int_of_str ys = Inr y
      \<longrightarrow> GET request ''month'' = None \<longrightarrow> 1 \<le> d_month today \<longrightarrow> d_month today \<le> 12
      \<longrightarrow> parse_year_month request today = Inr (y, d_month today))"
proof (intro conjI impI)
  assume "GET request ''year'' = Some ys" "int_of_str ys = Inl e"
  then show "parse_year_month request today = Inr (d_year today, d_month today)"
    by (simp add: parse_year_month_eq get_present)
next
  assume "GET request ''month'' = Some ms" "int_of_str ms = Inl e"
  then show "parse_year_month request today = Inr (d_year today, d_month today)"
    by (simp add: parse_year_month_eq get_present split: sum.splits)
next
  assume "GET request ''month'' = Some ms" "int_of_str ms = Inr m" "m < 1 \<or> 12 < m"
  then show "parse_year_month request today = Inr (d_year today, d_month today)"
    by (simp add: parse_year_month_eq get_present split: sum.splits)
next
  assume "GET request ''month'' = Some ''13''"
  then show "parse_year_month request today = Inr (d_year today, d_month today)"
    by (simp add: parse_year_month_eq get_present int_of_str_13 split: sum.splits)
next
  assume "GET request ''year'' = None" "GET request ''month'' = None"
  then show "parse_year_month request today = Inr (d_year today, d_month today)"
    by (simp add: parse_year_month_eq get_absent)
next
  assume "GET request ''year'' = None" "GET request ''month'' = Some ms"
    "int_of_str ms = Inr m" "1 \<le> m" "m \<le> 12"
  then show "parse_year_month request today = Inr (d_year today, m)"
    by (simp add: parse_year_month_eq get_present get_absent)
next
  assume "GET request ''year'' = Some ys" "int_of_str ys = Inr y"
    "GET request ''month'' = None" "1 \<le> d_month today" "d_month today \<le> 12"
  then show "parse_year_month request today = Inr (y, d_month today)"
    by (simp add: parse_year_month_eq get_present get_absent)
qed

theorem parse_year_month_fallback_witness:
  "parse_year_month \<lparr>GET = [''year'' \<mapsto> ''2020'', ''month'' \<mapsto> ''13'']\<rparr>
       \<lparr>d_year = 2026, d_month = 11, d_day = 4\<rparr> = Inr (2026, 11)
   \<and> parse_year_month \<lparr>GET = [''year'' \<mapsto> ''20x0'', ''month'' \<mapsto> ''5'']\<rparr>
       \<lparr>d_year = 2026, d_month = 11, d_day = 4\<rparr> = Inr (2026, 11)
   \<and> parse_year_month \<lparr>GET = [''month'' \<mapsto> ''5'']\<rparr>
       \<lparr>d_year = 2026, d_month = 11, d_day = 4\<rparr> = Inr (2026, 5)
   \<and> parse_year_month \<lparr>GET = [''year'' \<mapsto> ''2020'']\<rparr>
       \<lparr>d_year = 2026, d_month = 11, d_day = 4\<rparr> = Inr (2020, 11)"
proof -
  let ?today = "\<lparr>d_year = 2026, d_month = 11, d_day = 4\<rparr>"
  have bad: "int_of_str ''20x0'' = Inl ValueError" by code_simp
  have five: "int_of_str ''5'' = Inr 5" by code_simp
  have y: "int_of_str ''2020'' = Inr 2020" by code_simp
  show ?thesis
    using
      parse_year_month_fallback [where request = "\<lparr>GET = [''year'' \<mapsto> ''2020'', ''month'' \<mapsto> ''13'']\<rparr>"
        and today = ?today]
      parse_year_month_fallback [where request = "\<lparr>GET = [''year'' \<mapsto> ''20x0'', ''month'' \<mapsto> ''5'']\<rparr>"
        and today = ?today and ys = "''20x0''" and e = ValueError]
      parse_year_month_fallback [where request = "\<lparr>GET = [''month'' \<mapsto> ''5'']\<rparr>"
        and today = ?today and ms = "''5''" and m = 5]
      parse_year_month_fallback [where request = "\<lparr>GET = [''year'' \<mapsto> ''2020'']\<rparr>"
        and today = ?today and ys = "''2020''" and y = 2020]
    by (simp add: bad five y)
qed

text \<open>
  Claim C4 as stated fails: with the year missing and the month "5" supplied, on
  2026-11-04, the result is (2026, 5), not today's (2026, 11).
\<close>

theorem parse_year_month_missing_year_counterexample:
  "parse_year_month \<lparr>GET = [''month'' \<mapsto> ''5'']\<rparr> \<lparr>d_year = 2026, d_month = 11, d_day = 4\<rparr>
     = Inr (2026, 5)
   \<and> parse_year_month \<lparr>GET = [''month'' \<mapsto> ''5'']\<rparr> \<lparr>d_year = 2026, d_month = 11, d_day = 4\<rparr>
     \<noteq> Inr (d_year \<lparr>d_year = 2026, d_month = 11, d_day = 4\<rparr>,
             d_month \<lparr>d_year = 2026, d_month = 11, d_day = 4\<rparr>)"
proof -
  have "int_of_str ''5'' = Inr 5" by code_simp
  then have "parse_year_month \<lparr>GET = [''month'' \<mapsto> ''5'']\<rparr> \<lparr>d_year = 2026, d_month = 11, d_day = 4\<rparr>
     = Inr (2026, 5)"
    by (simp add: parse_year_month_eq get_present get_absent)
  then show ?thesis by simp
qed

section \<open>Years outside the range of dates\<close>

lemma date_new_bad_year:
  assumes "y < 1 \<or> 9999 < y" "fits_c_int m" "fits_c_int d"
  shows "date_new y m d = Inl (year_error y)"
  using assms by (auto simp: date_new_def year_error_def MINYEAR_def MAXYEAR_def)

lemma build_row_bad_year:
  assumes "y < 1 \<or> 9999 < y" "fits_c_int m" "\<forall>d \<in> set week. fits_c_int d"
  shows "build_row y m week =
     (if \<exists>d \<in> set week. d \<noteq> 0 then Inl (year_error y) else Inr (map (cell_of y m) week))"
  using assms(3)
proof (induction week)
  case Nil
  show ?case by simp
next
  case (Cons d week)
  then have rest: "build_row y m week =
     (if \<exists>d \<in> set week. d \<noteq> 0 then Inl (year_error y) else Inr (map (cell_of y m) week))"
    by simp
  from Cons.prems have "fits_c_int d" by simp
  then have d: "date_new y m d = Inl (year_error y)"
    using assms(1,2) by (simp add: date_new_bad_year)
  show ?case
    by (cases "d = 0") (simp_all add: rest d cell_of_def)
qed

lemma build_weeks_bad_year:
  assumes "y < 1 \<or> 9999 < y" "fits_c_int m"
    and "\<forall>week \<in> set cal. \<forall>d \<in> set week. fits_c_int d"
  shows "build_weeks y m cal =
     (if \<exists>week \<in> set cal. \<exists>d \<in> set week. d \<noteq> 0 then Inl (year_error y)
      else Inr (map (map (cell_of y m)) cal))"
  using assms(3)
proof (induction cal)
  case Nil
  show ?case by simp
next
  case (Cons week cal)
  then have rest: "build_weeks y m cal =
     (if \<exists>week \<in> set cal. \<exists>d \<in> set week. d \<noteq> 0 then Inl (year_error y)
      else Inr (map (map (cell_of y m)) cal))"
    by simp
  from Cons.prems have "\<forall>d \<in> set week. fits_c_int d" by simp
  then have row: "build_row y m week =
     (if \<exists>d \<in> set week. d \<noteq> 0 then Inl (year_error y) else Inr (map (cell_of y m) week))"
    using assms(1,2) by (simp add: build_row_bad_year)
  show ?case
    by (cases "\<exists>d \<in> set week. d \<noteq> 0") (simp_all add: rest row)
qed

lemma itermonthdays_bad_year:
  assumes "y < 1 \<or> 9999 < y" "1 \<le> m" "m \<le> 12"
  shows "\<exists>days. itermonthdays SUNDAY y m = Inr days \<and> 1 \<in> set days
           \<and> (\<forall>d \<in> set days. fits_c_int d)"
proof -
  let ?y = "2000 + y mod 400"
  have "1 \<le> ?y" "?y \<le> 9999" by simp_all
  then have "date_new ?y m 1 = Inr \<lparr>d_year = ?y, d_month = m, d_day = 1\<rparr>"
    using assms(2,3) days_in_month_bounds [OF assms(2,3), of ?y] by (simp add: date_new_valid)
  then have w: "weekday y m 1 = Inr (date_weekday \<lparr>d_year = ?y, d_month = m, d_day = 1\<rparr>)"
    using assms(1) by (auto simp: weekday_def MINYEAR_def MAXYEAR_def)
  have n: "1 \<le> days_in_month y m" "days_in_month y m \<le> 31"
    using days_in_month_bounds [OF assms(2,3), of y] by simp_all
  let ?days = "replicate (nat ((date_weekday \<lparr>d_year = ?y, d_month = m, d_day = 1\<rparr> - SUNDAY) mod 7)) 0
      @ [1..days_in_month y m]
      @ replicate (nat ((SUNDAY - date_weekday \<lparr>d_year = ?y, d_month = m, d_day = 1\<rparr>
          - days_in_month y m) mod 7)) (0::int)"
  have "itermonthdays SUNDAY y m = Inr ?days"
    using assms(2,3) w by (simp add: itermonthdays_def monthrange_def mdays_days_in_month)
  moreover have "1 \<in> set ?days" using n by simp
  moreover have "\<forall>d \<in> set ?days. fits_c_int d"
    using n by (auto simp: fits_c_int_def INT_MIN_def INT_MAX_def)
  ultimately show ?thesis by blast
qed

lemma build_month_grid_bad_year:
  assumes "y < 1 \<or> 9999 < y" "1 \<le> m" "m \<le> 12"
  shows "build_month_grid y m = Inl (year_error y)"
proof -
  from itermonthdays_bad_year [OF assms]
  obtain days where d: "itermonthdays SUNDAY y m = Inr days" and one: "1 \<in> set days"
    and fits: "\<forall>d \<in> set days. fits_c_int d" by blast
  have m: "fits_c_int m"
    using assms(2,3) by (simp add: fits_c_int_def INT_MIN_def INT_MAX_def)
  have cal: "monthdayscalendar SUNDAY y m = Inr (slices7 days)"
    using d by (simp add: monthdayscalendar_def slices7_def)
  from one have "(1::int) \<in> set (concat (slices7 days))" by (simp only: concat_slices7)
  then obtain week where "week \<in> set (slices7 days)" "(1::int) \<in> set week"
    unfolding set_concat by blast
  then have nz: "\<exists>week \<in> set (slices7 days). \<exists>d \<in> set week. d \<noteq> 0"
    by (intro bexI [of _ week] bexI [of _ 1]) simp_all
  have "\<forall>week \<in> set (slices7 days). \<forall>d \<in> set week. fits_c_int d"
  proof (intro ballI)
    fix week d
    assume "week \<in> set (slices7 days)" "d \<in> set week"
    then have "d \<in> set days" using set_slices7 by blast
    with fits show "fits_c_int d" by simp
  qed
  then have "build_weeks y m (slices7 days) = Inl (year_error y)"
    using nz by (simp add: build_weeks_bad_year [OF assms(1) m])
  then show ?thesis
    using cal by (simp add: build_month_grid_def)
qed

lemma month_view_bad_year:
  assumes "parse_year_month request today = Inr (y, m)" "y < 1 \<or> 9999 < y" "1 \<le> m" "m \<le> 12"
  shows "month_view request today = Inl (year_error y)"
proof -
  have "fits_c_int m" "fits_c_int 1"
    using assms(3,4) by (simp_all add: fits_c_int_def INT_MIN_def INT_MAX_def)
  then have "date_new y m 1 = Inl (year_error y)"
    using assms(2) by (simp add: date_new_bad_year)
  then show ?thesis using assms(1) by (simp add: month_view_def)
qed

lemma is_leap_rule:
  "is_leap y = (y mod 4 = 0 \<and> (y mod 100 \<noteq> 0 \<or> y mod 400 = 0))"
  by (simp add: is_leap_def)

lemma ex_cell_iff:
  "(\<exists>week \<in> set ws. \<exists>cell \<in> set week. f cell = v) = (v \<in> set (map f (concat ws)))"
  by auto

text \<open>
  Claim C6. A grid that \<open>build_month_grid\<close> returns for February has a cell with day 29
  if and only if the year is divisible by 4 and, when it is divisible by 100, also by 400;
  for every year in 1..9999 a grid is returned. For February 2024 the grid has 5 weeks
  and its last day cell is 29; for February 2023 the last day cell is 28.
\<close>

theorem build_month_grid_february_29:
  "(build_month_grid year 2 = Inr weeks \<longrightarrow>
      (\<exists>week \<in> set weeks. \<exists>cell \<in> set week. day cell = 29)
        = (year mod 4 = 0 \<and> (year mod 100 \<noteq> 0 \<or> year mod 400 = 0)))
   \<and> (1 \<le> year \<and> year \<le> 9999 \<longrightarrow> (\<exists>weeks. build_month_grid year 2 = Inr weeks))
   \<and> (\<exists>weeks. build_month_grid 2024 2 = Inr weeks \<and> length weeks = 5
         \<and> last (filter (\<lambda>d. d \<noteq> 0) (map day (concat weeks))) = 29)
   \<and> (\<exists>weeks. build_month_grid 2023 2 = Inr weeks
         \<and> last (filter (\<lambda>d. d \<noteq> 0) (map day (concat weeks))) = 28)"
proof (intro conjI impI)
  assume g: "build_month_grid year 2 = Inr weeks"
  have valid: "1 \<le> year" "year \<le> 9999"
    using g build_month_grid_bad_year [of year 2] by force+
  let ?weeks = "map (map (cell_of year 2)) (slices7 (month_days year 2))"
  have w: "weeks = ?weeks"
    using g valid by (simp add: build_month_grid_valid)
  have "(\<exists>week \<in> set ?weeks. \<exists>cell \<in> set week. day cell = 29)
      = (29 \<in> set (map day (concat ?weeks)))"
    by (rule ex_cell_iff [of ?weeks day 29])
  also have "\<dots> = (29 \<in> set (month_days year 2))"
    by (simp only: map_day_grid)
  also have "\<dots> = (29 \<le> days_in_month year 2)"
    by (auto simp: month_days_def)
  also have "\<dots> = is_leap year"
    by (simp add: days_in_month_def DAYS_IN_MONTH_def)
  also have "\<dots> = (year mod 4 = 0 \<and> (year mod 100 \<noteq> 0 \<or> year mod 400 = 0))"
    by (rule is_leap_rule)
  finally show "(\<exists>week \<in> set weeks. \<exists>cell \<in> set week. day cell = 29)
      = (year mod 4 = 0 \<and> (year mod 100 \<noteq> 0 \<or> year mod 400 = 0))"
    unfolding w .
next
  assume "1 \<le> year \<and> year \<le> 9999"
  then show "\<exists>weeks. build_month_grid year 2 = Inr weeks"
    by (simp add: build_month_grid_valid)
next
  show "\<exists>weeks. build_month_grid 2024 2 = Inr weeks \<and> length weeks = 5
            \<and> last (filter (\<lambda>d. d \<noteq> 0) (map day (concat weeks))) = 29"
    unfolding grid_2024_2 by simp
next
  show "\<exists>weeks. build_month_grid 2023 2 = Inr weeks
            \<and> last (filter (\<lambda>d. d \<noteq> 0) (map day (concat weeks))) = 28"
    unfolding grid_2023_2 by simp
qed

theorem build_month_grid_february_29_witness:
  "(\<exists>weeks. build_month_grid 1900 2 = Inr weeks
         \<and> (\<exists>week \<in> set weeks. \<exists>cell \<in> set week. day cell = 29) = False)
   \<and> (\<exists>weeks. build_month_grid 2000 2 = Inr weeks
         \<and> (\<exists>week \<in> set weeks. \<exists>cell \<in> set week. day cell = 29) = True)"
proof (intro conjI)
  have "\<exists>weeks. build_month_grid 1900 2 = Inr weeks"
    using build_month_grid_february_29 [where year = 1900, THEN conjunct2, THEN conjunct1] by simp
  then obtain weeks where g: "build_month_grid 1900 2 = Inr weeks" ..
  then have "(\<exists>week \<in> set weeks. \<exists>cell \<in> set week. day cell = 29) = False"
    using build_month_grid_february_29 [where year = 1900 and weeks = weeks, THEN conjunct1] by simp
  with g show "\<exists>weeks. build_month_grid 1900 2 = Inr weeks
         \<and> (\<exists>week \<in> set weeks. \<exists>cell \<in> set week. day cell = 29) = False" by blast
next
  have "\<exists>weeks. build_month_grid 2000 2 = Inr weeks"
    using build_month_grid_february_29 [where year = 2000, THEN conjunct2, THEN conjunct1] by simp
  then obtain weeks where g: "build_month_grid 2000 2 = Inr weeks" ..
  then have "(\<exists>week \<in> set weeks. \<exists>cell \<in> set week. day cell = 29) = True"
    using build_month_grid_february_29 [where year = 2000 and weeks = weeks, THEN conjunct1] by simp
  with g show "\<exists>weeks. build_month_grid 2000 2 = Inr weeks
         \<and> (\<exists>week \<in> set weeks. \<exists>cell \<in> set week. day cell = 29) = True" by blast
qed

text \<open>
  Claim C9. When the year string parses to \<open>y\<close> and the month string parses to \<open>m\<close> in
  1..12, \<open>parse_year_month\<close> returns (\<open>y\<close>, \<open>m\<close>) whatever \<open>y\<close> is: there is no range check
  on the year. For \<open>y\<close> below 1 or above 9999 the date construction that follows is not
  defined: \<open>build_month_grid y m\<close> and \<open>month_view\<close> on that request raise, ValueError
  when \<open>y\<close> fits a C \<open>int\<close> and OverflowError when it does not.
\<close>

theorem parse_year_month_keeps_year:
  assumes "GET request ''year'' = Some ys" "int_of_str ys = Inr y"
    and "GET request ''month'' = Some ms" "int_of_str ms = Inr m" "1 \<le> m" "m \<le> 12"
  shows "parse_year_month request today = Inr (y, m)
     \<and> (y < 1 \<or> 9999 < y \<longrightarrow>
          build_month_grid y m
            = Inl (if - 2147483648 \<le> y \<and> y \<le> 2147483647 then ValueError else OverflowError)
          \<and> month_view request today
            = Inl (if - 2147483648 \<le> y \<and> y \<le> 2147483647 then ValueError else OverflowError))"
proof -
  have p: "parse_year_month request today = Inr (y, m)"
    using assms by (simp add: parse_year_month_eq get_present)
  have e: "year_error y
      = (if - 2147483648 \<le> y \<and> y \<le> 2147483647 then ValueError else OverflowError)"
    by (simp add: year_error_def fits_c_int_def INT_MIN_def INT_MAX_def)
  have "build_month_grid y m = Inl (year_error y) \<and> month_view request today = Inl (year_error y)"
    if "y < 1 \<or> 9999 < y"
    using that p assms(5,6) by (simp add: build_month_grid_bad_year month_view_bad_year)
  then show ?thesis using p unfolding e by blast
qed

theorem parse_year_month_keeps_year_witness:
  "parse_year_month \<lparr>GET = [''year'' \<mapsto> ''0'', ''month'' \<mapsto> ''1'']\<rparr>
       \<lparr>d_year = 2026, d_month = 11, d_day = 4\<rparr> = Inr (0, 1)
   \<and> build_month_grid 0 1 = Inl ValueError
   \<and> parse_year_month \<lparr>GET = [''year'' \<mapsto> ''-44'', ''month'' \<mapsto> ''3'']\<rparr>
       \<lparr>d_year = 2026, d_month = 11, d_day = 4\<rparr> = Inr (- 44, 3)
   \<and> parse_year_month \<lparr>GET = [''year'' \<mapsto> ''10000'', ''month'' \<mapsto> ''12'']\<rparr>
       \<lparr>d_year = 2026, d_month = 11, d_day = 4\<rparr> = Inr (10000, 12)
   \<and> month_view \<lparr>GET = [''year'' \<mapsto> ''10000'', ''month'' \<mapsto> ''12'']\<rparr>
       \<lparr>d_year = 2026, d_month = 11, d_day = 4\<rparr> = Inl ValueError
   \<and> parse_year_month \<lparr>GET = [''year'' \<mapsto> ''2147483648'', ''month'' \<mapsto> ''1'']\<rparr>
       \<lparr>d_year = 2026, d_month = 11, d_day = 4\<rparr> = Inr (2147483648, 1)
   \<and> build_month_grid 2147483648 1 = Inl OverflowError
   \<and> month_view \<lparr>GET = [''year'' \<mapsto> ''2147483648'', ''month'' \<mapsto> ''1'']\<rparr>
       \<lparr>d_year = 2026, d_month = 11, d_day = 4\<rparr> = Inl OverflowError"
proof -
  let ?today = "\<lparr>d_year = 2026, d_month = 11, d_day = 4\<rparr>"
  have s: "int_of_str ''0'' = Inr 0" "int_of_str ''1'' = Inr 1" "int_of_str ''-44'' = Inr (- 44)"
    "int_of_str ''3'' = Inr 3" "int_of_str ''10000'' = Inr 10000" "int_of_str ''12'' = Inr 12"
    "int_of_str ''2147483648'' = Inr 2147483648"
    by code_simp+
  show ?thesis
    using
      parse_year_month_keeps_year [where request = "\<lparr>GET = [''year'' \<mapsto> ''0'', ''month'' \<mapsto> ''1'']\<rparr>"
        and today = ?today and ys = "''0''" and ms = "''1''" and y = 0 and m = 1]
      parse_year_month_keeps_year [where request = "\<lparr>GET = [''year'' \<mapsto> ''-44'', ''month'' \<mapsto> ''3'']\<rparr>"
        and today = ?today and ys = "''-44''" and ms = "''3''" and y = "- 44" and m = 3]
      parse_year_month_keeps_year [where request = "\<lparr>GET = [''year'' \<mapsto> ''10000'', ''month'' \<mapsto> ''12'']\<rparr>"
        and today = ?today and ys = "''10000''" and ms = "''12''" and y = 10000 and m = 12]
      parse_year_month_keeps_year [where request = "\<lparr>GET = [''year'' \<mapsto> ''2147483648'', ''month'' \<mapsto> ''1'']\<rparr>"
        and today = ?today and ys = "''2147483648''" and ms = "''1''" and y = 2147483648 and m = 1]
    by (simp add: s)
qed

section \<open>Requests on which the view raises\<close>

text \<open>
  Claim C7 fails on the code. The requests year=0, month=1 (ValueError), year=1, month=1
  and year=9999, month=12 (OverflowError) make \<open>month_view\<close> raise, whatever today is;
  \<open>build_month_grid\<close> raises for the year 0 and for the month 13, and the navigation
  raises for the year 0, for January of the year 1 and for December 9999.
\<close>

theorem month_view_raises:
  "month_view \<lparr>GET = [''year'' \<mapsto> ''0'', ''month'' \<mapsto> ''1'']\<rparr> today = Inl ValueError
   \<and> month_view \<lparr>GET = [''year'' \<mapsto> ''1'', ''month'' \<mapsto> ''1'']\<rparr> today = Inl OverflowError
   \<and> month_view \<lparr>GET = [''year'' \<mapsto> ''9999'', ''month'' \<mapsto> ''12'']\<rparr> today = Inl OverflowError
   \<and> build_month_grid 0 1 = Inl ValueError
   \<and> build_month_grid 2024 13 = Inl IllegalMonthError
   \<and> adjacent_months 0 1 = Inl ValueError
   \<and> adjacent_months 1 1 = Inl OverflowError
   \<and> adjacent_months 9999 12 = Inl OverflowError"
proof -
  have s: "int_of_str ''0'' = Inr 0" "int_of_str ''1'' = Inr 1"
    "int_of_str ''9999'' = Inr 9999" "int_of_str ''12'' = Inr 12"
    by code_simp+
  have p: "parse_year_month \<lparr>GET = [''year'' \<mapsto> ''0'', ''month'' \<mapsto> ''1'']\<rparr> today = Inr (0, 1)"
    "parse_year_month \<lparr>GET = [''year'' \<mapsto> ''1'', ''month'' \<mapsto> ''1'']\<rparr> today = Inr (1, 1)"
    "parse_year_month \<lparr>GET = [''year'' \<mapsto> ''9999'', ''month'' \<mapsto> ''12'']\<rparr> today = Inr (9999, 12)"
    by (simp_all add: parse_year_month_eq get_present s)
  have a: "adjacent_months 0 1 = Inl ValueError" "adjacent_months 1 1 = Inl OverflowError"
    "adjacent_months 9999 12 = Inl OverflowError"
    by code_simp+
  have d: "date_new 0 1 1 = Inl ValueError"
    "date_new 1 1 1 = Inr \<lparr>d_year = 1, d_month = 1, d_day = 1\<rparr>"
    "date_new 9999 12 1 = Inr \<lparr>d_year = 9999, d_month = 12, d_day = 1\<rparr>"
    by code_simp+
  have g: "build_month_grid 0 1 = Inl ValueError" "build_month_grid 2024 13 = Inl IllegalMonthError"
    by code_simp+
  show ?thesis by (simp add: month_view_def p a d g)
qed

section \<open>Ordinals and dates\<close>

lemma DI_values: "DI400Y = 146097" "DI100Y = 36524" "DI4Y = 1461"
  by (simp_all add: DI400Y_def DI100Y_def DI4Y_def days_before_year_def)

lemma month_part_table_common:
  "list_all (\<lambda>m. list_all (\<lambda>d. month_part False (day_offset False m d) = (m, d))
     [1..month_length False m]) [1..12]"
  by code_simp

lemma month_part_table_leap:
  "list_all (\<lambda>m. list_all (\<lambda>d. day_offset True m d = 365
       \<or> month_part True (day_offset True m d) = (m, d))
     [1..month_length True m]) [1..12]"
  by code_simp

lemma days_in_month_table:
  assumes "1 \<le> m" "m \<le> 12"
  shows "days_in_month y m = month_length (is_leap y) m"
  using assms
  by (cases m rule: month_cases)
     (simp_all add: days_in_month_def DAYS_IN_MONTH_def month_length_def)

lemma month_part_correct:
  assumes "1 \<le> m" "m \<le> 12" "1 \<le> d" "d \<le> days_in_month y m"
    and "days_before_month y m + d - 1 \<noteq> 365"
  shows "month_part (is_leap y) (days_before_month y m + d - 1) = (m, d)"
proof -
  have off: "day_offset (is_leap y) m d = days_before_month y m + d - 1"
    by (simp add: day_offset_def days_before_month_def)
  have m: "m \<in> set [1..12]" using assms(1,2) by simp
  have d: "d \<in> set [1..month_length (is_leap y) m]"
    using assms by (simp add: days_in_month_table)
  show ?thesis
  proof (cases "is_leap y")
    case True
    from month_part_table_leap m
    have "list_all (\<lambda>d. day_offset True m d = 365 \<or> month_part True (day_offset True m d) = (m, d))
        [1..month_length True m]"
      unfolding list_all_iff [of _ "[1..12]"] by (rule bspec)
    moreover from d True have "d \<in> set [1..month_length True m]" by simp
    ultimately have "day_offset True m d = 365 \<or> month_part True (day_offset True m d) = (m, d)"
      unfolding list_all_iff by (rule bspec)
    with True off assms(5) show ?thesis by simp
  next
    case False
    from month_part_table_common m
    have "list_all (\<lambda>d. month_part False (day_offset False m d) = (m, d)) [1..month_length False m]"
      unfolding list_all_iff [of _ "[1..12]"] by (rule bspec)
    moreover from d False have "d \<in> set [1..month_length False m]" by simp
    ultimately have "month_part False (day_offset False m d) = (m, d)"
      unfolding list_all_iff by (rule bspec)
    with False off show ?thesis by simp
  qed
qed

lemma days_before_month_values:
  "days_before_month y 1 = 0"
  "days_before_month y 2 = 31"
  "days_before_month y 3 = (if is_leap y then 60 else 59)"
  "days_before_month y 4 = (if is_leap y then 91 else 90)"
  "days_before_month y 5 = (if is_leap y then 121 else 120)"
  "days_before_month y 6 = (if is_leap y then 152 else 151)"
  "days_before_month y 7 = (if is_leap y then 182 else 181)"
  "days_before_month y 8 = (if is_leap y then 213 else 212)"
  "days_before_month y 9 = (if is_leap y then 244 else 243)"
  "days_before_month y 10 = (if is_leap y then 274 else 273)"
  "days_before_month y 11 = (if is_leap y then 305 else 304)"
  "days_before_month y 12 = (if is_leap y then 335 else 334)"
  by (simp_all add: days_before_month_def DAYS_BEFORE_MONTH_def)

lemma days_in_month_values:
  "days_in_month y 1 = 31"
  "days_in_month y 2 = (if is_leap y then 29 else 28)"
  "days_in_month y 3 = 31"
  "days_in_month y 4 = 30"
  "days_in_month y 5 = 31"
  "days_in_month y 6 = 30"
  "days_in_month y 7 = 31"
  "days_in_month y 8 = 31"
  "days_in_month y 9 = 30"
  "days_in_month y 10 = 31"
  "days_in_month y 11 = 30"
  "days_in_month y 12 = 31"
  by (simp_all add: days_in_month_def DAYS_IN_MONTH_def)

lemma day_of_year_bounds:
  assumes "1 \<le> m" "m \<le> 12" "1 \<le> d" "d \<le> days_in_month y m"
  shows "0 \<le> days_before_month y m + d - 1"
    and "days_before_month y m + d - 1 \<le> (if is_leap y then 365 else 364)"
    and "days_before_month y m + d - 1 = 365 \<Longrightarrow> m = 12 \<and> d = 31"
proof -
  show "0 \<le> days_before_month y m + d - 1"
    using assms
    by (cases m rule: month_cases; cases "is_leap y")
       (simp_all add: days_before_month_values)
  show "days_before_month y m + d - 1 \<le> (if is_leap y then 365 else 364)"
    using assms
    by (cases m rule: month_cases; cases "is_leap y")
       (simp_all add: days_before_month_values days_in_month_values)
  show "m = 12 \<and> d = 31" if "days_before_month y m + d - 1 = 365"
    using assms that
    by (cases m rule: month_cases; cases "is_leap y")
       (simp_all add: days_before_month_values days_in_month_values)
qed

lemma ord2ymd_steps:
  assumes "n0 - 1 = 146097 * n400 + r400" "0 \<le> r400" "r400 < 146097"
    and "r400 = 36524 * n100 + r100" "0 \<le> r100" "r100 < 36524"
    and "r100 = 1461 * n4 + r4" "0 \<le> r4" "r4 < 1461"
    and "r4 = 365 * n1 + r1" "0 \<le> r1" "r1 < 365"
  shows "ord2ymd n0 =
     (if n1 = 4 \<or> n100 = 4 then (n400 * 400 + 1 + (n100 * 100 + n4 * 4 + n1) - 1, 12, 31)
      else case month_part (n1 = 3 \<and> (n4 \<noteq> 24 \<or> n100 = 3)) r1 of
             (mo, d) \<Rightarrow> (n400 * 400 + 1 + (n100 * 100 + n4 * 4 + n1), mo, d))"
proof -
  have s1: "(n0 - 1) div 146097 = n400" "(n0 - 1) mod 146097 = r400"
    using assms(1-3) by (rule int_div_pos_eq int_mod_pos_eq)+
  have s2: "r400 div 36524 = n100" "r400 mod 36524 = r100"
    using assms(4-6) by (rule int_div_pos_eq int_mod_pos_eq)+
  have s3: "r100 div 1461 = n4" "r100 mod 1461 = r4"
    using assms(7-9) by (rule int_div_pos_eq int_mod_pos_eq)+
  have s4: "r4 div 365 = n1" "r4 mod 365 = r1"
    using assms(10-12) by (rule int_div_pos_eq int_mod_pos_eq)+
  show ?thesis
    unfolding ord2ymd_def DI_values Let_def month_part_def s1 s2 s3 s4 by simp
qed

lemma year_digits:
  fixes Y :: int
  assumes "0 \<le> Y"
  obtains a b c e where "Y = 400 * a + 100 * b + 4 * c + e"
    "0 \<le> a" "0 \<le> b" "b \<le> 3" "0 \<le> c" "c \<le> 24" "0 \<le> e" "e \<le> 3"
proof -
  define a where "a = Y div 400"
  define r where "r = Y mod 400"
  define b where "b = r div 100"
  define r' where "r' = r mod 100"
  define c where "c = r' div 4"
  define e where "e = r' mod 4"
  have Y: "Y = 400 * a + r" by (simp add: a_def r_def)
  have r: "r = 100 * b + r'" by (simp add: b_def r'_def)
  have r': "r' = 4 * c + e" by (simp add: c_def e_def)
  have rb: "0 \<le> r" "r < 400" by (simp_all add: r_def)
  have r'b: "0 \<le> r'" "r' < 100" by (simp_all add: r'_def)
  have eb: "0 \<le> e" "e < 4" by (simp_all add: e_def)
  have "0 \<le> a" using assms by (simp add: a_def)
  moreover have "0 \<le> b" "b \<le> 3" using rb r r'b by linarith+
  moreover have "0 \<le> c" "c \<le> 24" using r'b r' eb by linarith+
  moreover have "Y = 400 * a + 100 * b + 4 * c + e" using Y r r' by linarith
  ultimately show thesis using that eb by simp
qed

lemma days_before_year_digits:
  assumes "0 \<le> b" "b \<le> 3" "0 \<le> c" "c \<le> 24" "0 \<le> e" "e \<le> (3::int)"
  shows "days_before_year (400 * a + 100 * b + 4 * c + e + 1)
       = 146097 * a + 36524 * b + 1461 * c + 365 * e"
proof -
  let ?Y = "400 * a + 100 * b + 4 * c + e"
  have "?Y = 4 * (100 * a + 25 * b + c) + e" by simp
  then have d4: "?Y div 4 = 100 * a + 25 * b + c"
    by (rule int_div_pos_eq) (use assms in simp_all)
  have "?Y = 100 * (4 * a + b) + (4 * c + e)" by simp
  then have d100: "?Y div 100 = 4 * a + b"
    by (rule int_div_pos_eq) (use assms in simp_all)
  have "?Y = 400 * a + (100 * b + 4 * c + e)" by simp
  then have d400: "?Y div 400 = a"
    by (rule int_div_pos_eq) (use assms in simp_all)
  show ?thesis
    unfolding days_before_year_def Let_def by (simp add: d4 d100 d400)
qed

lemma is_leap_digits:
  assumes "0 \<le> b" "b \<le> 3" "0 \<le> c" "c \<le> 24" "0 \<le> e" "e \<le> (3::int)"
  shows "is_leap (400 * a + 100 * b + 4 * c + e + 1) = (e = 3 \<and> (c \<noteq> 24 \<or> b = 3))"
proof -
  let ?y = "400 * a + 100 * b + 4 * c + e + 1"
  have m4: "(?y mod 4 = 0) = (e = 3)"
  proof (cases "e = 3")
    case True
    then have "?y = 4 * (100 * a + 25 * b + c + 1) + 0" by simp
    then have "?y mod 4 = 0" by (rule int_mod_pos_eq) simp_all
    with True show ?thesis by simp
  next
    case False
    have "?y = 4 * (100 * a + 25 * b + c) + (e + 1)" by simp
    then have "?y mod 4 = e + 1" by (rule int_mod_pos_eq) (use assms False in simp_all)
    with False assms show ?thesis by simp
  qed
  have m100: "(?y mod 100 = 0) = (c = 24 \<and> e = 3)"
  proof (cases "c = 24 \<and> e = 3")
    case True
    then have "?y = 100 * (4 * a + b + 1) + 0" by simp
    then have "?y mod 100 = 0" by (rule int_mod_pos_eq) simp_all
    with True show ?thesis by simp
  next
    case False
    then have lt: "4 * c + e + 1 < 100" using assms by linarith
    have "?y = 100 * (4 * a + b) + (4 * c + e + 1)" by simp
    then have "?y mod 100 = 4 * c + e + 1" by (rule int_mod_pos_eq) (use assms lt in simp_all)
    with False assms show ?thesis by simp
  qed
  have m400: "(?y mod 400 = 0) = (b = 3 \<and> c = 24 \<and> e = 3)"
  proof (cases "b = 3 \<and> c = 24 \<and> e = 3")
    case True
    then have "?y = 400 * (a + 1) + 0" by simp
    then have "?y mod 400 = 0" by (rule int_mod_pos_eq) simp_all
    with True show ?thesis by simp
  next
    case False
    then have lt: "100 * b + 4 * c + e + 1 < 400" using assms by linarith
    have "?y = 400 * a + (100 * b + 4 * c + e + 1)" by simp
    then have "?y mod 400 = 100 * b + 4 * c + e + 1"
      by (rule int_mod_pos_eq) (use assms lt in simp_all)
    with False assms show ?thesis by simp
  qed
  show ?thesis unfolding is_leap_def m4 m100 m400 by blast
qed

lemma ord2ymd_ymd2ord:
  assumes "1 \<le> y" "1 \<le> m" "m \<le> 12" "1 \<le> d" "d \<le> days_in_month y m"
  shows "ord2ymd (ymd2ord y m d) = (y, m, d)"
proof -
  have "0 \<le> y - 1" using assms(1) by simp
  then obtain a b c e where Y: "y - 1 = 400 * a + 100 * b + 4 * c + e"
    and bounds: "0 \<le> b" "b \<le> 3" "0 \<le> c" "c \<le> 24" "0 \<le> e" "e \<le> 3"
    by (rule year_digits)
  have y: "y = 400 * a + 100 * b + 4 * c + e + 1" using Y by simp
  define doy where "doy = days_before_month y m + d - 1"
  have dby: "days_before_year y = 146097 * a + 36524 * b + 1461 * c + 365 * e"
    unfolding y using bounds by (rule days_before_year_digits)
  have leap: "is_leap y = (e = 3 \<and> (c \<noteq> 24 \<or> b = 3))"
    unfolding y using bounds by (rule is_leap_digits)
  have doy0: "0 \<le> doy"
    unfolding doy_def using assms(2-5) by (rule day_of_year_bounds)
  have doyle: "doy \<le> (if is_leap y then 365 else 364)"
    unfolding doy_def using assms(2-5) by (rule day_of_year_bounds)
  have n0: "ymd2ord y m d - 1 = 146097 * a + 36524 * b + 1461 * c + 365 * e + doy"
    by (simp add: ymd2ord_def dby doy_def)
  show ?thesis
  proof (cases "doy = 365")
    case True
    then have md: "m = 12" "d = 31"
      using day_of_year_bounds(3) [OF assms(2-5)] by (simp_all add: doy_def)
    from True doyle have "is_leap y" by (simp split: if_splits)
    then have e: "e = 3" and cb: "c \<noteq> 24 \<or> b = 3" using leap by simp_all
    show ?thesis
    proof (cases "c = 24")
      case c: True
      with cb have b: "b = 3" by simp
      have "ord2ymd (ymd2ord y m d) =
         (if (0::int) = 4 \<or> (4::int) = 4 then (a * 400 + 1 + (4 * 100 + 0 * 4 + 0) - 1, 12, 31)
          else case month_part ((0::int) = 3 \<and> ((0::int) \<noteq> 24 \<or> (4::int) = 3)) 0 of
                 (mo, d) \<Rightarrow> (a * 400 + 1 + (4 * 100 + 0 * 4 + 0), mo, d))"
        by (rule ord2ymd_steps [where ?r400.0 = "36524 * 4" and ?r100.0 = 0 and ?r4.0 = 0])
           (simp_all add: n0 True e c b)
      then show ?thesis by (simp add: y e c b md)
    next
      case c: False
      then have c23: "c \<le> 23" using bounds by simp
      have "ord2ymd (ymd2ord y m d) =
         (if (4::int) = 4 \<or> b = 4 then (a * 400 + 1 + (b * 100 + c * 4 + 4) - 1, 12, 31)
          else case month_part ((4::int) = 3 \<and> (c \<noteq> 24 \<or> b = 3)) 0 of
                 (mo, d) \<Rightarrow> (a * 400 + 1 + (b * 100 + c * 4 + 4), mo, d))"
        by (rule ord2ymd_steps [where ?r400.0 = "36524 * b + 1461 * c + 1460"
              and ?r100.0 = "1461 * c + 1460" and ?r4.0 = 1460])
           (use bounds c23 in \<open>simp_all add: n0 True e\<close>)
      then show ?thesis by (simp add: y e md)
    qed
  next
    case False
    with doyle have doy364: "doy \<le> 364" by (simp split: if_splits)
    have mp: "month_part (is_leap y) doy = (m, d)"
      unfolding doy_def using assms(2-5) False [unfolded doy_def] by (rule month_part_correct)
    have e365: "e \<noteq> 3 \<Longrightarrow> 365 * e + doy < 1461" using bounds doy364 by linarith
    have "ord2ymd (ymd2ord y m d) =
         (if e = 4 \<or> b = 4 then (a * 400 + 1 + (b * 100 + c * 4 + e) - 1, 12, 31)
          else case month_part (e = 3 \<and> (c \<noteq> 24 \<or> b = 3)) doy of
                 (mo, d) \<Rightarrow> (a * 400 + 1 + (b * 100 + c * 4 + e), mo, d))"
      by (rule ord2ymd_steps [where ?r400.0 = "36524 * b + 1461 * c + 365 * e + doy"
            and ?r100.0 = "1461 * c + 365 * e + doy" and ?r4.0 = "365 * e + doy"])
         (use bounds doy0 doy364 in \<open>simp_all add: n0\<close>)
    moreover have "month_part (e = 3 \<and> (c \<noteq> 24 \<or> b = 3)) doy = (m, d)"
      using mp unfolding leap .
    ultimately have "ord2ymd (ymd2ord y m d) = (a * 400 + 1 + (b * 100 + c * 4 + e), m, d)"
      using bounds by simp
    then show ?thesis by (simp add: y)
  qed
qed

lemma div_step:
  fixes y k :: int
  assumes "0 < k"
  shows "y div k = (y - 1) div k + (if y mod k = 0 then 1 else 0)"
proof -
  define q where "q = (y - 1) div k"
  define r where "r = (y - 1) mod k"
  have r: "0 \<le> r" "r < k" using assms by (simp_all add: r_def)
  have "y - 1 = k * q + r" by (simp add: q_def r_def)
  then have y: "y = k * q + r + 1" by simp
  show ?thesis
  proof (cases "r + 1 = k")
    case True
    have e: "y = k * (q + 1) + 0" using y True by (simp add: algebra_simps)
    have "y div k = q + 1" by (rule int_div_pos_eq [OF e]) (use assms in simp_all)
    moreover have "y mod k = 0" by (rule int_mod_pos_eq [OF e]) (use assms in simp_all)
    ultimately show ?thesis by (simp add: q_def)
  next
    case False
    then have lt: "r + 1 < k" using r by simp
    have e: "y = k * q + (r + 1)" using y by simp
    have "y div k = q" by (rule int_div_pos_eq [OF e]) (use r lt in simp_all)
    moreover have "y mod k = r + 1" by (rule int_mod_pos_eq [OF e]) (use r lt in simp_all)
    ultimately show ?thesis using r by (simp add: q_def)
  qed
qed

lemma days_before_year_step:
  "days_before_year (y + 1) = days_before_year y + (if is_leap y then 366 else 365)"
proof -
  define q4 where "q4 = (y - 1) div 4"
  define q100 where "q100 = (y - 1) div 100"
  define q400 where "q400 = (y - 1) div 400"
  define p4 where "p4 = y div 4"
  define p100 where "p100 = y div 100"
  define p400 where "p400 = y div 400"
  have d4: "p4 = q4 + (if y mod 4 = 0 then 1 else 0)"
    unfolding p4_def q4_def by (rule div_step) simp
  have d100: "p100 = q100 + (if y mod 100 = 0 then 1 else 0)"
    unfolding p100_def q100_def by (rule div_step) simp
  have d400: "p400 = q400 + (if y mod 400 = 0 then 1 else 0)"
    unfolding p400_def q400_def by (rule div_step) simp
  have i1: "y mod 4 = 0" if "y mod 100 = 0"
  proof -
    from that have "100 dvd y" by (simp add: dvd_eq_mod_eq_0)
    then have "4 dvd y" using dvd_trans [of 4 100 y] by simp
    then show ?thesis by (simp add: dvd_eq_mod_eq_0)
  qed
  have i2: "y mod 100 = 0" if "y mod 400 = 0"
  proof -
    from that have "400 dvd y" by (simp add: dvd_eq_mod_eq_0)
    then have "100 dvd y" using dvd_trans [of 100 400 y] by simp
    then show ?thesis by (simp add: dvd_eq_mod_eq_0)
  qed
  have new: "days_before_year (y + 1) = y * 365 + p4 - p100 + p400"
    by (simp add: days_before_year_def p4_def p100_def p400_def)
  have old: "days_before_year y = (y - 1) * 365 + q4 - q100 + q400"
    by (simp add: days_before_year_def Let_def q4_def q100_def q400_def)
  consider (a) "y mod 400 = 0" | (b) "y mod 400 \<noteq> 0" "y mod 100 = 0"
    | (c) "y mod 100 \<noteq> 0" "y mod 4 = 0" | (d) "y mod 4 \<noteq> 0"
    by blast
  then show ?thesis
  proof cases
    case a
    then have "y mod 100 = 0" "y mod 4 = 0" using i1 i2 by simp_all
    with a have "p4 = q4 + 1" "p100 = q100 + 1" "p400 = q400 + 1" "is_leap y"
      using d4 d100 d400 by (simp_all add: is_leap_def)
    then show ?thesis unfolding new old by simp
  next
    case b
    then have "y mod 4 = 0" using i1 by simp
    with b have "p4 = q4 + 1" "p100 = q100 + 1" "p400 = q400" "\<not> is_leap y"
      using d4 d100 d400 by (simp_all add: is_leap_def)
    then show ?thesis unfolding new old by simp
  next
    case c
    from c(1) have "y mod 400 \<noteq> 0" using i2 by (rule contrapos_nn)
    with c have "p4 = q4 + 1" "p100 = q100" "p400 = q400" "is_leap y"
      using d4 d100 d400 by (simp_all add: is_leap_def)
    then show ?thesis unfolding new old by simp
  next
    case d
    then have "y mod 100 \<noteq> 0" using i1 by (rule contrapos_nn)
    then have "y mod 400 \<noteq> 0" using i2 by (rule contrapos_nn)
    with d \<open>y mod 100 \<noteq> 0\<close> have "p4 = q4" "p100 = q100" "p400 = q400" "\<not> is_leap y"
      using d4 d100 d400 by (simp_all add: is_leap_def)
    then show ?thesis unfolding new old by simp
  qed
qed

lemma days_before_year_mono:
  assumes "y \<le> z"
  shows "days_before_year y \<le> days_before_year z"
  using assms
proof (induction z rule: int_ge_induct)
  case base
  show ?case by simp
next
  case (step i)
  have "days_before_year i \<le> days_before_year (i + 1)"
    by (simp add: days_before_year_step)
  with step show ?case by simp
qed

lemma ymd2ord_bounds:
  assumes "1 \<le> y" "y \<le> 9999" "1 \<le> m" "m \<le> 12" "1 \<le> d" "d \<le> days_in_month y m"
  shows "0 < ymd2ord y m d" and "ymd2ord y m d \<le> MAXORDINAL"
proof -
  have "days_before_year 1 \<le> days_before_year y" using assms(1) by (rule days_before_year_mono)
  then have "0 \<le> days_before_year y" by (simp add: days_before_year_def)
  then show "0 < ymd2ord y m d"
    using day_of_year_bounds(1) [OF assms(3-6)] by (simp add: ymd2ord_def)
  have "y + 1 \<le> 10000" using assms(2) by simp
  then have "days_before_year (y + 1) \<le> days_before_year 10000"
    by (rule days_before_year_mono)
  then have "days_before_year (y + 1) \<le> MAXORDINAL"
    by (simp add: days_before_year_def MAXORDINAL_def)
  moreover have "ymd2ord y m d \<le> days_before_year (y + 1)"
    using day_of_year_bounds(2) [OF assms(3-6)]
    by (simp add: ymd2ord_def days_before_year_step split: if_splits)
  ultimately show "ymd2ord y m d \<le> MAXORDINAL" by simp
qed

lemma fromordinal_ymd2ord:
  assumes "1 \<le> y" "y \<le> 9999" "1 \<le> m" "m \<le> 12" "1 \<le> d" "d \<le> days_in_month y m"
  shows "fromordinal (ymd2ord y m d) = Inr \<lparr>d_year = y, d_month = m, d_day = d\<rparr>"
  using assms by (simp add: fromordinal_def ord2ymd_ymd2ord date_new_valid)

lemma date_add_ymd2ord:
  assumes "toordinal dt + k = ymd2ord y m d"
    and "1 \<le> y" "y \<le> 9999" "1 \<le> m" "m \<le> 12" "1 \<le> d" "d \<le> days_in_month y m"
  shows "date_add dt k = Inr \<lparr>d_year = y, d_month = m, d_day = d\<rparr>"
  using ymd2ord_bounds [OF assms(2-7)] fromordinal_ymd2ord [OF assms(2-7)]
  by (simp add: date_add_def assms(1))

lemma last_day_of_previous_month:
  assumes "1 \<le> m" "m \<le> 12"
  shows "ymd2ord y m 1 - 1 =
     (if m = 1 then ymd2ord (y - 1) 12 31 else ymd2ord y (m - 1) (days_in_month y (m - 1)))"
proof (cases "m = 1")
  case True
  have "days_before_year y = days_before_year (y - 1) + (if is_leap (y - 1) then 366 else 365)"
    using days_before_year_step [of "y - 1"] by simp
  then show ?thesis
    using True by (simp add: ymd2ord_def days_before_month_values)
next
  case False
  with assms show ?thesis
    by (cases m rule: month_cases)
       (simp_all add: ymd2ord_def days_before_month_values days_in_month_values)
qed

lemma four_days_after_the_28th:
  assumes "1 \<le> m" "m \<le> 12"
  shows "ymd2ord y m 28 + 4 =
     (if m = 12 then ymd2ord (y + 1) 1 1 else ymd2ord y (m + 1) (32 - days_in_month y m))"
proof (cases "m = 12")
  case True
  then show ?thesis
    by (simp add: ymd2ord_def days_before_month_values days_before_year_step)
next
  case False
  with assms show ?thesis
    by (cases m rule: month_cases)
       (simp_all add: ymd2ord_def days_before_month_values days_in_month_values)
qed

section \<open>The previous and the next month\<close>

lemma date_sub_first_of_month:
  assumes "1 \<le> y" "y \<le> 9999" "1 \<le> m" "m \<le> 12" "\<not> (y = 1 \<and> m = 1)"
  shows "\<exists>d. date_sub \<lparr>d_year = y, d_month = m, d_day = 1\<rparr> 1 =
           Inr \<lparr>d_year = (if m = 1 then y - 1 else y), d_month = (if m = 1 then 12 else m - 1),
                d_day = d\<rparr> \<and> 1 \<le> d"
proof -
  let ?first = "\<lparr>d_year = y, d_month = m, d_day = 1\<rparr>"
  show ?thesis
  proof (cases "m = 1")
    case True
    with assms(5) have y: "1 \<le> y - 1" "y - 1 \<le> 9999" using assms(1,2) by simp_all
    have "toordinal ?first + - 1 = ymd2ord (y - 1) 12 31"
      using last_day_of_previous_month [OF assms(3,4), of y] True by (simp add: toordinal_def)
    then have "date_add ?first (- 1) = Inr \<lparr>d_year = y - 1, d_month = 12, d_day = 31\<rparr>"
      using y by (rule date_add_ymd2ord) (simp_all add: days_in_month_values)
    then show ?thesis using True by (simp add: date_sub_def)
  next
    case False
    then have m: "1 \<le> m - 1" "m - 1 \<le> 12" using assms(3,4) by simp_all
    have d: "1 \<le> days_in_month y (m - 1)"
      using days_in_month_bounds [OF m, of y] by simp
    have "toordinal ?first + - 1 = ymd2ord y (m - 1) (days_in_month y (m - 1))"
      using last_day_of_previous_month [OF assms(3,4), of y] False by (simp add: toordinal_def)
    then have "date_add ?first (- 1)
        = Inr \<lparr>d_year = y, d_month = m - 1, d_day = days_in_month y (m - 1)\<rparr>"
      using assms(1,2) m d by (rule date_add_ymd2ord) simp
    then show ?thesis using False d by (simp add: date_sub_def)
  qed
qed

lemma date_add_after_the_28th:
  assumes "1 \<le> y" "y \<le> 9999" "1 \<le> m" "m \<le> 12" "\<not> (y = 9999 \<and> m = 12)"
  shows "\<exists>d. date_add \<lparr>d_year = y, d_month = m, d_day = 28\<rparr> 4 =
           Inr \<lparr>d_year = (if m = 12 then y + 1 else y), d_month = (if m = 12 then 1 else m + 1),
                d_day = d\<rparr> \<and> 1 \<le> d"
proof -
  let ?day28 = "\<lparr>d_year = y, d_month = m, d_day = 28\<rparr>"
  show ?thesis
  proof (cases "m = 12")
    case True
    with assms(5) have y: "1 \<le> y + 1" "y + 1 \<le> 9999" using assms(1,2) by simp_all
    have "toordinal ?day28 + 4 = ymd2ord (y + 1) 1 1"
      using four_days_after_the_28th [OF assms(3,4), of y] True by (simp add: toordinal_def)
    then have "date_add ?day28 4 = Inr \<lparr>d_year = y + 1, d_month = 1, d_day = 1\<rparr>"
      using y by (rule date_add_ymd2ord) (simp_all add: days_in_month_values)
    then show ?thesis using True by simp
  next
    case False
    then have m: "1 \<le> m + 1" "m + 1 \<le> 12" using assms(3,4) by simp_all
    have "28 \<le> days_in_month y m" "days_in_month y m \<le> 31"
      using days_in_month_bounds [OF assms(3,4), of y] by simp_all
    moreover have "28 \<le> days_in_month y (m + 1)"
      using days_in_month_bounds [OF m, of y] by simp
    ultimately have d: "1 \<le> 32 - days_in_month y m"
      "32 - days_in_month y m \<le> days_in_month y (m + 1)" by simp_all
    have "toordinal ?day28 + 4 = ymd2ord y (m + 1) (32 - days_in_month y m)"
      using four_days_after_the_28th [OF assms(3,4), of y] False by (simp add: toordinal_def)
    then have "date_add ?day28 4
        = Inr \<lparr>d_year = y, d_month = m + 1, d_day = 32 - days_in_month y m\<rparr>"
      using assms(1,2) m d by (rule date_add_ymd2ord)
    then show ?thesis using False d by simp
  qed
qed

lemma adjacent_months_examples:
  "adjacent_months 2024 1 = Inr (2023, 12, 2024, 2)"
  "adjacent_months 2024 12 = Inr (2024, 11, 2025, 1)"
  by code_simp+

text \<open>
  Claim C5, amended. For every year in 1..9999 and month in 1..12, other than January of
  the year 1 and December of the year 9999, the navigation returns the month before
  (month 1 gives month 12 of the year before, otherwise the month before in the same
  year) and the month after (month 12 gives month 1 of the year after, otherwise the
  month after in the same year). For 2024-01 it returns (2023, 12) and (2024, 2), for
  2024-12 it returns (2024, 11) and (2025, 1).
\<close>

theorem adjacent_months_in_range:
  assumes "1 \<le> year" "year \<le> 9999" "1 \<le> month" "month \<le> 12"
    and "\<not> (year = 1 \<and> month = 1)" "\<not> (year = 9999 \<and> month = 12)"
  shows "adjacent_months year month =
      Inr (if month = 1 then year - 1 else year, if month = 1 then 12 else month - 1,
           if month = 12 then year + 1 else year, if month = 12 then 1 else month + 1)
    \<and> adjacent_months 2024 1 = Inr (2023, 12, 2024, 2)
    \<and> adjacent_months 2024 12 = Inr (2024, 11, 2025, 1)"
proof -
  let ?py = "if month = 1 then year - 1 else year"
  let ?pm = "if month = 1 then 12 else month - 1"
  let ?ny = "if month = 12 then year + 1 else year"
  let ?nm = "if month = 12 then 1 else month + 1"
  have dim: "28 \<le> days_in_month year month"
    using days_in_month_bounds [OF assms(3,4), of year] by simp
  have first: "date_new year month 1 = Inr \<lparr>d_year = year, d_month = month, d_day = 1\<rparr>"
    using assms(1-4) dim by (simp add: date_new_valid)
  from date_sub_first_of_month [OF assms(1-5)]
  obtain pd where prev: "date_sub \<lparr>d_year = year, d_month = month, d_day = 1\<rparr> 1
      = Inr \<lparr>d_year = ?py, d_month = ?pm, d_day = pd\<rparr>" by blast
  have py: "1 \<le> ?py" "?py \<le> 9999" "1 \<le> ?pm" "?pm \<le> 12"
    using assms(1-5) by auto
  have "1 \<le> days_in_month ?py ?pm" using days_in_month_bounds [OF py(3,4), of ?py] by simp
  with py have prev1: "date_new ?py ?pm 1 = Inr \<lparr>d_year = ?py, d_month = ?pm, d_day = 1\<rparr>"
    by (rule date_new_valid [OF _ _ _ _ order_refl])
  have day28: "date_new year month 28 = Inr \<lparr>d_year = year, d_month = month, d_day = 28\<rparr>"
    using assms(1-4) dim by (simp add: date_new_valid)
  from date_add_after_the_28th [OF assms(1-4,6)]
  obtain nd where nxt: "date_add \<lparr>d_year = year, d_month = month, d_day = 28\<rparr> 4
      = Inr \<lparr>d_year = ?ny, d_month = ?nm, d_day = nd\<rparr>" by blast
  have ny: "1 \<le> ?ny" "?ny \<le> 9999" "1 \<le> ?nm" "?nm \<le> 12"
    using assms(1-4,6) by auto
  have "1 \<le> days_in_month ?ny ?nm" using days_in_month_bounds [OF ny(3,4), of ?ny] by simp
  with ny have next1: "date_new ?ny ?nm 1 = Inr \<lparr>d_year = ?ny, d_month = ?nm, d_day = 1\<rparr>"
    by (rule date_new_valid [OF _ _ _ _ order_refl])
  have "adjacent_months year month = Inr (?py, ?pm, ?ny, ?nm)"
    unfolding adjacent_months_def
    by (simp only: first and_then_simps prev replace_day_def date.simps prev1 day28 nxt next1)
  then show ?thesis by (simp only: adjacent_months_examples simp_thms)
qed

theorem adjacent_months_in_range_witness:
  "(1::int) \<le> 2000 \<and> (2000::int) \<le> 9999 \<and> (1::int) \<le> 2 \<and> (2::int) \<le> 12
   \<and> adjacent_months 2000 2 = Inr (2000, 1, 2000, 3)
   \<and> adjacent_months 1999 12 = Inr (1999, 11, 2000, 1)
   \<and> adjacent_months 1 2 = Inr (1, 1, 1, 3)
   \<and> adjacent_months 9999 11 = Inr (9999, 10, 9999, 12)"
  using adjacent_months_in_range [of 2000 2] adjacent_months_in_range [of 1999 12]
    adjacent_months_in_range [of 1 2] adjacent_months_in_range [of 9999 11]
  by simp

text \<open>
  Claim C5 as stated, for every year, fails: for January of the year 1 and for December
  of the year 9999 the date arithmetic leaves the range of \<open>date\<close> and raises
  OverflowError instead of returning the year 0 or the year 10000, and for a year outside
  1..9999 the construction of the first day raises ValueError.
\<close>

theorem adjacent_months_range_counterexample:
  "adjacent_months 1 1 = Inl OverflowError
   \<and> adjacent_months 1 1 \<noteq> Inr (1 - 1, 12, 1, 1 + 1)
   \<and> adjacent_months 9999 12 = Inl OverflowError
   \<and> adjacent_months 9999 12 \<noteq> Inr (9999, 12 - 1, 9999 + 1, 1)
   \<and> adjacent_months 0 6 = Inl ValueError
   \<and> adjacent_months 10000 6 = Inl ValueError"
proof -
  have "adjacent_months 1 1 = Inl OverflowError" "adjacent_months 9999 12 = Inl OverflowError"
    "adjacent_months 0 6 = Inl ValueError" "adjacent_months 10000 6 = Inl ValueError"
    by code_simp+
  then show ?thesis by simp
qed

end
